theory Spec2Isabelle
  imports Complex_Main "HOL-Library.Multiset"
begin

section \<open>Layer-group slicing utilities of tpu-mlir (LayerGroupUtil.cpp)\<close>

text \<open>
  The development embeds the functions of
  \<^verbatim>\<open>lib/Dialect/Tpu/Transforms/LayerGroup/LayerGroupUtil.cpp\<close> that decide how the
  batch (n) and height (h) dimensions of the tensors of a layer group are sliced.
  The C++ \<^verbatim>\<open>int64_t\<close> values are modelled as \<^typ>\<open>int\<close>: extents, section counts and
  buffer sizes stay far below \<open>2^63\<close>, and signed overflow is undefined in C++ anyway.
  A function that can fail to deliver a result in the source (an out-of-range vector
  access, a null operation, a division by zero, a loop that does not end) returns an
  \<^typ>\<open>'a option\<close> here and \<open>None\<close> stands for "no result".
\<close>

subsection \<open>Integer arithmetic of the source\<close>

text \<open>C++ \<^verbatim>\<open>/\<close> and \<^verbatim>\<open>%\<close> on signed integers truncate towards zero.\<close>

definition c_div :: "int \<Rightarrow> int \<Rightarrow> int" where
  "c_div a b = sgn a * sgn b * (\<bar>a\<bar> div \<bar>b\<bar>)"

definition c_mod :: "int \<Rightarrow> int \<Rightarrow> int" where
  "c_mod a b = a - b * c_div a b"

text \<open>
  Modelled from the spec: \<^verbatim>\<open>ceiling_func\<close> and \<^verbatim>\<open>align_up\<close> are declared in
  \<^verbatim>\<open>tpu_mlir/Support/MathUtils.h\<close>, which is not part of the sources at hand. The spec
  calls the first "ceiling-division" and the second rounding "up to that unit"; both divide
  by their second argument, so the callers below give no result for a zero divisor.
\<close>

definition ceiling_func :: "int \<Rightarrow> int \<Rightarrow> int" where
  "ceiling_func numerator denominator = - ((- numerator) div denominator)"

definition align_up :: "int \<Rightarrow> int \<Rightarrow> int" where
  "align_up x a = ceiling_func x a * a"

subsection \<open>Data model\<close>

type_synonym slice_pair_t = "int \<times> int"

record slice_info_t =
  si_n :: "slice_pair_t list"
  si_h :: "slice_pair_t list"

record shape_secs_t =
  nsecs :: int
  hsecs :: int

text \<open>
  Tensors (\<^verbatim>\<open>mlir::Value\<close>) and operations (\<^verbatim>\<open>mlir::Operation *\<close>) are handles, and the
  group type is an integer tag.
\<close>

type_synonym Value = nat
type_synonym Operation = nat
type_synonym group_type_t = int

text \<open>
  Modelled from the spec: the tensor record (\<^verbatim>\<open>tensor_info_t\<close>), the live buffer
  (\<^verbatim>\<open>mem_buffer_value_t\<close>) and the schedule (\<^verbatim>\<open>BasicTimeStep\<close>) are declared in headers that
  are not part of the sources at hand; the records below have the fields the spec lists
  and \<^verbatim>\<open>LayerGroupUtil.cpp\<close> reads (for the schedule, under the names of its getters).
  The buffer map (\<^verbatim>\<open>MemBuff\<close>) is the list of its values in iteration order. A tensor
  record built from a slice info alone has its flags cleared.
\<close>

record tensor_info_t =
  slice_info :: slice_info_t
  eu_align :: bool
  need_bcast :: bool
  use_3ic_opt :: int

definition tensor_info_of :: "slice_info_t \<Rightarrow> tensor_info_t" where
  "tensor_info_of si = \<lparr>slice_info = si, eu_align = False, need_bcast = False, use_3ic_opt = 0\<rparr>"

definition default_tensor_info :: tensor_info_t where
  "default_tensor_info = tensor_info_of \<lparr>si_n = [], si_h = []\<rparr>"

type_synonym TensorInfo = "Value \<Rightarrow> tensor_info_t option"

record mem_buffer_value_t =
  start_ts :: int
  end_ts :: int
  size' :: int

record BasicTimeStep =
  get_timestep_num :: int
  get_lmem_buffer :: "mem_buffer_value_t list"
  get_tensor_infos :: TensorInfo

text \<open>
  Modelled from the spec: \<^verbatim>\<open>LgInfo\<close> is declared in a header that is not part of the sources
  at hand; the record has the fields \<^verbatim>\<open>LayerGroupUtil.cpp\<close> reads (the ordered operations,
  the group inputs and outputs, the group type).
\<close>

record LgInfo =
  group_ops :: "Operation list"
  group_ins :: "Value list"
  group_outs :: "Value list"
  type' :: group_type_t

subsection \<open>Exact-mode partition of an output: \<^verbatim>\<open>get_out_slice_info\<close>\<close>

text \<open>
  One pass of the loop body of \<^verbatim>\<open>get_out_slice_info\<close> for loop index \<open>i\<close>:
  \<^verbatim>\<open>step = n / secs + (n % secs > i);
  idx = n / secs * i + (n % secs > i ? i : n % secs);
  slice = (n - idx) > step ? step : (n - idx);\<close>
\<close>

definition out_slice :: "int \<Rightarrow> int \<Rightarrow> int \<Rightarrow> slice_pair_t" where
  "out_slice n secs i =
     (let step = c_div n secs + (if c_mod n secs > i then 1 else 0);
          idx = c_div n secs * i + (if c_mod n secs > i then i else c_mod n secs);
          slice = (if n - idx > step then step else n - idx)
      in (idx, slice))"

text \<open>The loop \<^verbatim>\<open>for (int64_t i = 0; i < secs; ++i)\<close> appends one pair per index.\<close>

definition out_slices :: "int \<Rightarrow> int \<Rightarrow> slice_pair_t list" where
  "out_slices n secs = map (\<lambda>i. out_slice n secs (int i)) [0..<nat secs]"

definition get_out_slice_info :: "shape_secs_t \<Rightarrow> int \<Rightarrow> int \<Rightarrow> slice_info_t" where
  "get_out_slice_info shape_secs n h =
     \<lparr>si_n = out_slices n (nsecs shape_secs), si_h = out_slices h (hsecs shape_secs)\<rparr>"

subsection \<open>The operation graph and the interfaces the scheduler consumes\<close>

text \<open>
  The record \<open>ir\<close> collects what the scheduler asks of tensors and operations
  (\<open>getOperands\<close>, \<open>getResults\<close>, \<open>getDefiningOp\<close>, \<open>getUsers\<close>, the shape, the kind of
  an operation as far as \<^verbatim>\<open>isa\<close> tests it) and the interfaces whose code is not part of
  \<^verbatim>\<open>LayerGroupUtil.cpp\<close>. They are fields of the record, so every theorem holds for
  whatever they return:
  \<^item> \<open>getN\<close>, \<open>getH\<close>: the \<open>n\<close> and \<open>h\<close> results of \<^verbatim>\<open>module::getNCDHW(v, n, c, d, h, w, type)\<close>;
  \<^item> \<open>getBitWidth\<close>: \<^verbatim>\<open>module::getStorageType(v).getIntOrFloatBitWidth()\<close>;
  \<^item> \<open>AllowDataSplit\<close>, \<open>BackwardN\<close>, \<open>BackwardH\<close>: the methods of \<^verbatim>\<open>LocalGenInterface\<close>;
    a backward mapping returns \<open>None\<close> for \<^verbatim>\<open>failure()\<close> and otherwise the pair
    \<open>(in_idx, in_slice)\<close> it wrote through its reference parameters;
  \<^item> \<open>ALIGN_4N\<close>, \<open>LMEM_BYTES\<close>: the constants of \<^verbatim>\<open>Arch\<close>;
  \<^item> \<open>update_all_mem_buffer_size\<close>: the method of \<^verbatim>\<open>BasicTimeStep\<close> that sizes the
    buffers of the schedule from the tensor records.

  The policy predicates \<^verbatim>\<open>is_eu_align\<close>, \<^verbatim>\<open>need_bcast\<close> and \<^verbatim>\<open>use_3ic\<close> are defined in
  \<^verbatim>\<open>LayerGroupUtil.cpp\<close> by case distinction over operation classes and chip families
  that are declared elsewhere. \<^verbatim>\<open>update_tensor_infos\<close> stores their results in the flags
  of the tensor records and nothing below reads those flags, so the three predicates are
  fields of the record as well (\<open>is_eu_align\<close>, \<open>need_bcast'\<close>, \<open>use_3ic\<close>).
\<close>

datatype op_kind = AddOp | SubOp | MulOp | DivOp | MaxOp | MinOp | WeightOp | NoneOp | OtherOp

record ir =
  getOperands :: "Operation \<Rightarrow> Value list"
  getResults :: "Operation \<Rightarrow> Value list"
  getKind :: "Operation \<Rightarrow> op_kind"
  getDefiningOp :: "Value \<Rightarrow> Operation option"
  getUsers :: "Value \<Rightarrow> Operation list"
  getShape :: "Value \<Rightarrow> int list"
  isNoneType :: "Value \<Rightarrow> bool"
  getN :: "Value \<Rightarrow> group_type_t \<Rightarrow> int"
  getH :: "Value \<Rightarrow> group_type_t \<Rightarrow> int"
  getBitWidth :: "Value \<Rightarrow> int"
  AllowDataSplit :: "Operation \<Rightarrow> int \<Rightarrow> group_type_t \<Rightarrow> bool"
  BackwardN :: "Operation \<Rightarrow> int \<Rightarrow> int \<Rightarrow> (int \<times> int) option"
  BackwardH :: "Operation \<Rightarrow> int \<Rightarrow> int \<Rightarrow> (int \<times> int) option"
  ALIGN_4N :: bool
  LMEM_BYTES :: int
  is_eu_align :: "Value \<Rightarrow> bool"
  need_bcast' :: "Value \<Rightarrow> bool"
  use_3ic :: "Value \<Rightarrow> int"
  update_all_mem_buffer_size :: "LgInfo \<Rightarrow> BasicTimeStep \<Rightarrow> BasicTimeStep"

subsection \<open>Backward mapping of one operand: \<^verbatim>\<open>get_backward_slice_info\<close>\<close>

text \<open>
  \<^verbatim>\<open>is_broadcast_binary(op, in)\<close>: the operation is one of Add, Sub, Mul, Max, Min, both
  operands have the same rank, and on some axis the operand has extent 1 where the other
  operand differs. (Binary operations have two operands, so both \<^verbatim>\<open>getOperand\<close> calls are
  in range.)
\<close>

definition is_broadcast_binary :: "ir \<Rightarrow> Operation \<Rightarrow> Value \<Rightarrow> bool" where
  "is_broadcast_binary M opr v =
     (if getKind M opr \<notin> {AddOp, SubOp, MulOp, MaxOp, MinOp} then False
      else
        let other = (if v = getOperands M opr ! 0 then getOperands M opr ! 1
                     else getOperands M opr ! 0);
            in_shape = getShape M v;
            other_shape = getShape M other
        in if length in_shape \<noteq> length other_shape then False
           else list_ex (\<lambda>i. in_shape ! i \<noteq> other_shape ! i \<and> in_shape ! i = 1)
                  [0..<length in_shape])"

text \<open>
  The batch loop of \<^verbatim>\<open>get_backward_slice_info\<close> over the output slices; \<open>bc\<close> is
  \<^verbatim>\<open>is_broadcast_tensor && n == 1\<close>. \<open>None\<close> is \<^verbatim>\<open>return false\<close>.
\<close>

fun backward_n_loop ::
  "(int \<Rightarrow> int \<Rightarrow> (int \<times> int) option) \<Rightarrow> bool \<Rightarrow> slice_pair_t list \<Rightarrow> slice_pair_t list option"
where
  "backward_n_loop bk bc [] = Some []"
| "backward_n_loop bk bc (s # ss) =
     (let ret = bk (fst s) (snd s) in
      if bc then map_option ((#) (0, 1)) (backward_n_loop bk bc ss)
      else (case ret of
              None \<Rightarrow> None
            | Some (idx, slice) \<Rightarrow>
                if slice = 0 then None
                else map_option ((#) (idx, slice)) (backward_n_loop bk bc ss)))"

text \<open>
  The height loop carries \<^verbatim>\<open>pre_end_idx\<close> and the loop index \<open>i\<close>; \<open>bc\<close> is
  \<^verbatim>\<open>is_broadcast_tensor && h == 1\<close>.
\<close>

fun backward_h_loop ::
  "(int \<Rightarrow> int \<Rightarrow> (int \<times> int) option) \<Rightarrow> bool \<Rightarrow> int \<Rightarrow> nat \<Rightarrow> slice_pair_t list
     \<Rightarrow> slice_pair_t list option"
where
  "backward_h_loop bk bc pre_end_idx i [] = Some []"
| "backward_h_loop bk bc pre_end_idx i (s # ss) =
     (let ret = bk (fst s) (snd s) in
      if bc then map_option ((#) (0, 1)) (backward_h_loop bk bc (0 + 1) (Suc i) ss)
      else (case ret of
              None \<Rightarrow> None
            | Some (idx, slice) \<Rightarrow>
                let end_reached = (idx + slice = pre_end_idx) in
                if slice = 0 \<or> (idx = 0 \<and> i > 0) \<or> end_reached then None
                else map_option ((#) (idx, slice))
                       (backward_h_loop bk bc (idx + slice) (Suc i) ss)))"

definition backward_n ::
  "ir \<Rightarrow> slice_info_t \<Rightarrow> Operation \<Rightarrow> Value \<Rightarrow> shape_secs_t \<Rightarrow> group_type_t
     \<Rightarrow> slice_pair_t list option"
where
  "backward_n M out_si opr v shape_secs group_type =
     (let n = getN M v group_type;
          is_broadcast_tensor = is_broadcast_binary M opr v
      in if nsecs shape_secs = 1 then Some [(0, n)]
         else backward_n_loop (BackwardN M opr) (is_broadcast_tensor \<and> n = 1) (si_n out_si))"

definition backward_h ::
  "ir \<Rightarrow> slice_info_t \<Rightarrow> Operation \<Rightarrow> Value \<Rightarrow> shape_secs_t \<Rightarrow> group_type_t
     \<Rightarrow> slice_pair_t list option"
where
  "backward_h M out_si opr v shape_secs group_type =
     (let h = getH M v group_type;
          is_broadcast_tensor = is_broadcast_binary M opr v
      in if hsecs shape_secs = 1 then Some [(0, h)]
         else backward_h_loop (BackwardH M opr) (is_broadcast_tensor \<and> h = 1) 0 0 (si_h out_si))"

text \<open>
  The function fills \<^verbatim>\<open>in_si\<close> and returns \<^verbatim>\<open>true\<close>, or returns \<^verbatim>\<open>false\<close> at the first
  slice it rejects (first on the batch dimension, then on the height): \<open>Some in_si\<close> and
  \<open>None\<close> here.
\<close>

definition get_backward_slice_info ::
  "ir \<Rightarrow> slice_info_t \<Rightarrow> Operation \<Rightarrow> Value \<Rightarrow> shape_secs_t \<Rightarrow> group_type_t
     \<Rightarrow> slice_info_t option"
where
  "get_backward_slice_info M out_si opr v shape_secs group_type =
     (case backward_n M out_si opr v shape_secs group_type of
        None \<Rightarrow> None
      | Some ns \<Rightarrow>
          (case backward_h M out_si opr v shape_secs group_type of
             None \<Rightarrow> None
           | Some hs \<Rightarrow> Some \<lparr>si_n = ns, si_h = hs\<rparr>))"

subsection \<open>The buffer accountant: \<^verbatim>\<open>get_split_max_secs\<close>\<close>

text \<open>
  The loop \<^verbatim>\<open>for (ts = start; ts <= end; ++ts) lmem_req[ts] += lmem_size\<close>; an index outside
  the vector gives no result.
\<close>

function lmem_add :: "int list \<Rightarrow> int \<Rightarrow> int \<Rightarrow> int \<Rightarrow> int list option" where
  "lmem_add lmem_req ts last_ts lmem_size =
     (if ts \<le> last_ts then
        (if 0 \<le> ts \<and> ts < int (length lmem_req)
         then lmem_add (lmem_req[nat ts := lmem_req ! nat ts + lmem_size]) (ts + 1) last_ts lmem_size
         else None)
      else Some lmem_req)"
  by pat_completeness auto
termination
  by (relation "measure (\<lambda>(lmem_req, ts, last_ts, lmem_size). nat (last_ts + 1 - ts))") auto

declare lmem_add.simps [simp del]

text \<open>The lambda \<^verbatim>\<open>update_lmem_req\<close>, with the vector it captures as an argument.\<close>

definition update_lmem_req :: "int list \<Rightarrow> int \<Rightarrow> int \<Rightarrow> int \<Rightarrow> int \<Rightarrow> int list option" where
  "update_lmem_req lmem_req timestep_num' start_ts' end_ts' lmem_size =
     (if start_ts' \<le> end_ts' then lmem_add lmem_req start_ts' end_ts' lmem_size
      else (case lmem_add lmem_req 0 end_ts' lmem_size of
              None \<Rightarrow> None
            | Some lmem_req' \<Rightarrow> lmem_add lmem_req' start_ts' (timestep_num' - 1) lmem_size))"

fun lmem_buffer_loop :: "int \<Rightarrow> int list \<Rightarrow> mem_buffer_value_t list \<Rightarrow> int list option" where
  "lmem_buffer_loop timestep_num' lmem_req [] = Some lmem_req"
| "lmem_buffer_loop timestep_num' lmem_req (b # bs) =
     (case update_lmem_req lmem_req timestep_num' (start_ts b) (end_ts b) (size' b) of
        None \<Rightarrow> None
      | Some lmem_req' \<Rightarrow> lmem_buffer_loop timestep_num' lmem_req' bs)"

text \<open>
  \<^verbatim>\<open>std::vector<int64_t> lmem_req(timestep_num, 0)\<close> cannot be built for a negative count;
  \<^verbatim>\<open>std::stable_sort\<close> with \<^verbatim>\<open>std::greater\<close> is a stable sort on the negated key; reading
  \<^verbatim>\<open>lmem_req[0]\<close> of an empty vector gives no result.
\<close>

definition get_split_max_secs :: "ir \<Rightarrow> BasicTimeStep \<Rightarrow> int option" where
  "get_split_max_secs M time_step =
     (let timestep_num' = get_timestep_num time_step in
      if timestep_num' < 0 then None
      else (case lmem_buffer_loop timestep_num' (replicate (nat timestep_num') 0)
                   (get_lmem_buffer time_step) of
              None \<Rightarrow> None
            | Some lmem_req \<Rightarrow>
                let sorted_req = sort_key (\<lambda>x. - x) lmem_req in
                if sorted_req = [] then None
                else Some (ceiling_func (sorted_req ! 0) (LMEM_BYTES M))))"

subsection \<open>The group and its split-factor ceiling: \<^verbatim>\<open>get_group_max_secs\<close>\<close>

definition get_input_values :: "ir \<Rightarrow> Operation \<Rightarrow> Value list" where
  "get_input_values M opr = filter (\<lambda>v. \<not> isNoneType M v) (getOperands M opr)"

definition get_output_values :: "ir \<Rightarrow> Operation \<Rightarrow> Value list" where
  "get_output_values M opr = filter (\<lambda>v. \<not> isNoneType M v) (getResults M opr)"

text \<open>
  Lines 21 to 29: the seed of \<^verbatim>\<open>max_nsecs\<close>, the batch extent of operand 0 of the first
  operation and, for Add, Sub, Mul, Div, Max and Min, the larger of the batch extents of
  operands 0 and 1. An empty group or a missing operand gives no result.
\<close>

definition seed_max_nsecs :: "ir \<Rightarrow> LgInfo \<Rightarrow> int option" where
  "seed_max_nsecs M lg_info =
     (case group_ops lg_info of
        [] \<Rightarrow> None
      | op0 # _ \<Rightarrow>
          (case getOperands M op0 of
             [] \<Rightarrow> None
           | v0 # vs \<Rightarrow>
               let max_nsecs = getN M v0 (type' lg_info) in
               if getKind M op0 \<in> {AddOp, SubOp, MulOp, DivOp, MaxOp, MinOp} then
                 (case vs of
                    [] \<Rightarrow> None
                  | v1 # _ \<Rightarrow> Some (max (getN M v1 (type' lg_info)) max_nsecs))
               else Some max_nsecs))"

text \<open>
  The inner loop over the outputs of one operation; the state is
  \<open>(max_nsecs, max_hsecs, n_align)\<close>. \<^verbatim>\<open>32 / bitwidth\<close> and the division inside
  \<^verbatim>\<open>ceiling_func(n, n_align)\<close> give no result for a zero divisor.
\<close>

fun max_secs_outs ::
  "ir \<Rightarrow> group_type_t \<Rightarrow> Operation \<Rightarrow> Value list \<Rightarrow> int \<times> int \<times> int \<Rightarrow> (int \<times> int \<times> int) option"
where
  "max_secs_outs M ty opr [] st = Some st"
| "max_secs_outs M ty opr (v # vs) (max_nsecs, max_hsecs, n_align) =
     (let n = getN M v ty; h = getH M v ty in
      if ALIGN_4N M \<and> getBitWidth M v = 0 then None
      else
        let n_align' = (if ALIGN_4N M then c_div 32 (getBitWidth M v) else n_align) in
        if n_align' = 0 then None
        else
          let max_nsecs' = min max_nsecs (ceiling_func n n_align');
              max_hsecs' = (if AllowDataSplit M opr 2 ty then min max_hsecs h else 1)
          in max_secs_outs M ty opr vs (max_nsecs', max_hsecs', n_align'))"

fun max_secs_ops ::
  "ir \<Rightarrow> group_type_t \<Rightarrow> Operation list \<Rightarrow> int \<times> int \<times> int \<Rightarrow> (int \<times> int \<times> int) option"
where
  "max_secs_ops M ty [] st = Some st"
| "max_secs_ops M ty (opr # ops) st =
     (case max_secs_outs M ty opr (get_output_values M opr) st of
        None \<Rightarrow> None
      | Some st' \<Rightarrow> max_secs_ops M ty ops st')"

text \<open>\<^verbatim>\<open>llvm::maxIntN(64)\<close>.\<close>

definition maxIntN64 :: int where
  "maxIntN64 = 2 ^ 63 - 1"

definition get_group_max_secs :: "ir \<Rightarrow> LgInfo \<Rightarrow> shape_secs_t option" where
  "get_group_max_secs M lg_info =
     (case seed_max_nsecs M lg_info of
        None \<Rightarrow> None
      | Some max_nsecs \<Rightarrow>
          (case max_secs_ops M (type' lg_info) (group_ops lg_info) (max_nsecs, maxIntN64, 1) of
             None \<Rightarrow> None
           | Some (max_nsecs', max_hsecs', n_align') \<Rightarrow>
               Some \<lparr>nsecs = max_nsecs', hsecs = max_hsecs'\<rparr>))"

subsection \<open>Comparing slice records: \<^verbatim>\<open>is_same_slice_info\<close>\<close>

definition is_same_slice :: "slice_pair_t \<Rightarrow> slice_pair_t \<Rightarrow> bool" where
  "is_same_slice a b \<longleftrightarrow> fst a = fst b \<and> snd a = snd b"

text \<open>
  The loops \<^verbatim>\<open>for (i = 0; i < si0.n.size(); ++i)\<close> compare the pairs at equal positions;
  they run after the sizes were found equal.
\<close>

fun same_slices :: "slice_pair_t list \<Rightarrow> slice_pair_t list \<Rightarrow> bool" where
  "same_slices (a # as) (b # bs) = (if \<not> is_same_slice a b then False else same_slices as bs)"
| "same_slices _ _ = True"

definition is_same_slice_info :: "slice_info_t \<Rightarrow> slice_info_t \<Rightarrow> bool" where
  "is_same_slice_info si0 si1 =
     (if length (si_n si0) \<noteq> length (si_n si1) \<or> length (si_h si0) \<noteq> length (si_h si1) then False
      else if \<not> same_slices (si_n si0) (si_n si1) then False
      else if \<not> same_slices (si_h si0) (si_h si1) then False
      else True)"

subsection \<open>Backward propagation: \<^verbatim>\<open>strip_back_judge\<close>, \<^verbatim>\<open>backward_update_slice\<close>\<close>

text \<open>
  The loop of \<^verbatim>\<open>strip_back_judge\<close> over the users of a tensor; \<open>None\<close> is the early
  \<^verbatim>\<open>return false\<close> for a user inside the group that has not been visited, and the flag is
  \<^verbatim>\<open>has_outer_group_user\<close>.
\<close>

fun users_loop :: "LgInfo \<Rightarrow> Operation multiset \<Rightarrow> Operation list \<Rightarrow> bool \<Rightarrow> bool option" where
  "users_loop lg_info op_set' [] has_outer_group_user = Some has_outer_group_user"
| "users_loop lg_info op_set' (u # us) has_outer_group_user =
     (if u \<in> set (group_ops lg_info) then
        (if count op_set' u = 0 then None
         else users_loop lg_info op_set' us has_outer_group_user)
      else users_loop lg_info op_set' us True)"

definition strip_back_judge ::
  "ir \<Rightarrow> Value \<Rightarrow> LgInfo \<Rightarrow> Operation multiset \<Rightarrow> Value set \<Rightarrow> bool"
where
  "strip_back_judge M v lg_info op_set' out_tensor_set =
     (case users_loop lg_info op_set' (getUsers M v) False of
        None \<Rightarrow> False
      | Some has_outer_group_user \<Rightarrow>
          if has_outer_group_user then v \<in> out_tensor_set else True)"

text \<open>
  The state the propagation threads through its calls: the worklist \<^verbatim>\<open>tensor_branchs\<close>,
  the map \<^verbatim>\<open>tensor_infos\<close> and the multiset \<^verbatim>\<open>op_set\<close> of visited operations.
\<close>

record lg_state =
  tensor_branchs :: "Value list"
  tensor_infos :: TensorInfo
  op_set :: "Operation multiset"

text \<open>\<^verbatim>\<open>if (strip_back_judge(v, ...)) tensor_branchs.push_back(v)\<close>.\<close>

definition push_if_judged :: "ir \<Rightarrow> LgInfo \<Rightarrow> Value set \<Rightarrow> Value \<Rightarrow> lg_state \<Rightarrow> lg_state" where
  "push_if_judged M lg_info out_tensor_set v st =
     (if strip_back_judge M v lg_info (op_set st) out_tensor_set
      then st\<lparr>tensor_branchs := tensor_branchs st @ [v]\<rparr> else st)"

definition is_weight_or_none :: "ir \<Rightarrow> Value \<Rightarrow> bool" where
  "is_weight_or_none M v =
     (case getDefiningOp M v of
        None \<Rightarrow> False
      | Some pre_op \<Rightarrow> getKind M pre_op \<in> {WeightOp, NoneOp})"

text \<open>
  The body of the loop of \<^verbatim>\<open>backward_update_slice\<close> over the operands of the producing
  operation, for the operand \<open>v\<close>: \<open>None\<close> is \<^verbatim>\<open>return false\<close>, and a weight or none
  operand is skipped. \<open>out_si\<close> is the slice info of the tensor being expanded: the source
  holds a reference to it into the map, and the loop only ever adds records for tensors the
  map does not have, so the referenced record does not change.
\<close>

definition operand_step ::
  "ir \<Rightarrow> LgInfo \<Rightarrow> shape_secs_t \<Rightarrow> Operation \<Rightarrow> slice_info_t \<Rightarrow> Value set \<Rightarrow> Value
     \<Rightarrow> lg_state \<Rightarrow> lg_state option"
where
  "operand_step M lg_info shape_secs opr out_si out_tensor_set v st =
     (if is_weight_or_none M v then Some st
      else
        (case get_backward_slice_info M out_si opr v shape_secs (type' lg_info) of
           None \<Rightarrow> None
         | Some si \<Rightarrow>
             (case tensor_infos st v of
                Some ti \<Rightarrow>
                  if \<not> is_same_slice_info si (slice_info ti) then None
                  else Some (push_if_judged M lg_info out_tensor_set v st)
              | None \<Rightarrow>
                  Some (push_if_judged M lg_info out_tensor_set v
                          (st\<lparr>tensor_infos := (tensor_infos st)(v \<mapsto> tensor_info_of si)\<rparr>)))))"

text \<open>The loop: the result is the returned flag and the state.\<close>

fun operands_loop ::
  "ir \<Rightarrow> LgInfo \<Rightarrow> shape_secs_t \<Rightarrow> Operation \<Rightarrow> slice_info_t \<Rightarrow> Value set \<Rightarrow> Value list
     \<Rightarrow> lg_state \<Rightarrow> bool \<times> lg_state"
where
  "operands_loop M lg_info shape_secs opr out_si out_tensor_set [] st = (True, st)"
| "operands_loop M lg_info shape_secs opr out_si out_tensor_set (v # vs) st =
     (case operand_step M lg_info shape_secs opr out_si out_tensor_set v st of
        None \<Rightarrow> (False, st)
      | Some st1 \<Rightarrow> operands_loop M lg_info shape_secs opr out_si out_tensor_set vs st1)"

text \<open>
  \<^verbatim>\<open>tensor_infos[out]\<close> adds a default record when the map has none. A tensor that is
  not a group input and has no defining operation makes the source dereference a null
  operation: no result.
\<close>

definition backward_update_slice ::
  "ir \<Rightarrow> LgInfo \<Rightarrow> shape_secs_t \<Rightarrow> Value \<Rightarrow> Value set \<Rightarrow> lg_state \<Rightarrow> (bool \<times> lg_state) option"
where
  "backward_update_slice M lg_info shape_secs out out_tensor_set st =
     (if out \<in> set (group_ins lg_info) then Some (True, st)
      else
        (case getDefiningOp M out of
           None \<Rightarrow> None
         | Some opr \<Rightarrow>
             let st1 = st\<lparr>op_set := add_mset opr (op_set st)\<rparr>;
                 st2 = (case tensor_infos st1 out of
                          None \<Rightarrow> st1\<lparr>tensor_infos := (tensor_infos st1)(out \<mapsto> default_tensor_info)\<rparr>
                        | Some ti \<Rightarrow> st1);
                 out_si = (case tensor_infos st1 out of
                             None \<Rightarrow> slice_info default_tensor_info
                           | Some ti \<Rightarrow> slice_info ti)
             in Some (operands_loop M lg_info shape_secs opr out_si out_tensor_set
                        (getOperands M opr) st2)))"

text \<open>
  The loop \<^verbatim>\<open>while (!tensor_branchs.empty())\<close> of both propagators. It need not end on a
  graph with a cycle: not returning is \<open>None\<close>.
\<close>

partial_function (option) worklist_loop ::
  "ir \<Rightarrow> LgInfo \<Rightarrow> shape_secs_t \<Rightarrow> Value set \<Rightarrow> lg_state \<Rightarrow> (bool \<times> lg_state) option"
where
  "worklist_loop M lg_info shape_secs out_tensor_set st =
     (case tensor_branchs st of
        [] \<Rightarrow> Some (True, st)
      | out_tensor # rest \<Rightarrow>
          (case backward_update_slice M lg_info shape_secs out_tensor out_tensor_set
                  (st\<lparr>tensor_branchs := rest\<rparr>) of
             None \<Rightarrow> None
           | Some (ret, st') \<Rightarrow>
               if \<not> ret then Some (False, st')
               else worklist_loop M lg_info shape_secs out_tensor_set st'))"

subsection \<open>Exact mode: \<^verbatim>\<open>stripe_mine_idx_slice\<close>\<close>

text \<open>The seeding loop over the group outputs; it also builds \<^verbatim>\<open>out_tensor_set\<close>.\<close>

fun idx_seed_loop ::
  "ir \<Rightarrow> LgInfo \<Rightarrow> shape_secs_t \<Rightarrow> Value list \<Rightarrow> lg_state \<times> Value set \<Rightarrow> lg_state \<times> Value set"
where
  "idx_seed_loop M lg_info shape_secs [] acc = acc"
| "idx_seed_loop M lg_info shape_secs (out # outs) (st, out_tensor_set) =
     (let si = get_out_slice_info shape_secs (getN M out (type' lg_info)) (getH M out (type' lg_info));
          st1 = st\<lparr>tensor_infos := (tensor_infos st)(out \<mapsto> tensor_info_of si)\<rparr>;
          out_tensor_set1 = insert out out_tensor_set
      in idx_seed_loop M lg_info shape_secs outs
           (push_if_judged M lg_info out_tensor_set1 out st1, out_tensor_set1))"

definition empty_state :: lg_state where
  "empty_state = \<lparr>tensor_branchs = [], tensor_infos = Map.empty, op_set = {#}\<rparr>"

text \<open>
  The result is the returned flag and the map the caller passed by reference; a group of
  one operation returns \<^verbatim>\<open>true\<close> and leaves the map as it was.
\<close>

definition stripe_mine_idx_slice ::
  "ir \<Rightarrow> LgInfo \<Rightarrow> shape_secs_t \<Rightarrow> TensorInfo \<Rightarrow> (bool \<times> TensorInfo) option"
where
  "stripe_mine_idx_slice M lg_info shape_secs tensor_infos0 =
     (if length (group_ops lg_info) = 1 then Some (True, tensor_infos0)
      else
        (case idx_seed_loop M lg_info shape_secs (group_outs lg_info) (empty_state, {}) of
           (st, out_tensor_set) \<Rightarrow>
             (case worklist_loop M lg_info shape_secs out_tensor_set st of
                None \<Rightarrow> None
              | Some (ret, st') \<Rightarrow> Some (ret, tensor_infos st'))))"

subsection \<open>Bounding mode: \<^verbatim>\<open>stripe_mine_max_slice\<close>\<close>

text \<open>
  The seeding loop carries \<^verbatim>\<open>max_nslice\<close>, which accumulates over the outputs;
  \<^verbatim>\<open>max_hslice\<close> is computed anew for each output. The divisions by \<^verbatim>\<open>nsecs\<close>, \<^verbatim>\<open>hsecs\<close>,
  the bit width and \<^verbatim>\<open>align_n\<close> give no result for a zero divisor.
\<close>

fun max_seed_loop ::
  "ir \<Rightarrow> LgInfo \<Rightarrow> shape_secs_t \<Rightarrow> Value list \<Rightarrow> lg_state \<times> Value set \<times> int
     \<Rightarrow> (lg_state \<times> Value set \<times> int) option"
where
  "max_seed_loop M lg_info shape_secs [] acc = Some acc"
| "max_seed_loop M lg_info shape_secs (out # outs) (st, out_tensor_set, max_nslice) =
     (let n = getN M out (type' lg_info); h = getH M out (type' lg_info) in
      if nsecs shape_secs = 0 \<or> hsecs shape_secs = 0 then None
      else if ALIGN_4N M \<and> (getBitWidth M out = 0 \<or> c_div 32 (getBitWidth M out) = 0) then None
      else
        let max_nslice1 = max max_nslice (ceiling_func n (nsecs shape_secs));
            max_nslice2 = (if ALIGN_4N M then align_up max_nslice1 (c_div 32 (getBitWidth M out))
                           else max_nslice1);
            max_hslice = c_div (h + hsecs shape_secs - 1) (hsecs shape_secs);
            si = \<lparr>si_n = [(0, max_nslice2)], si_h = [(0, max_hslice)]\<rparr>;
            st1 = st\<lparr>tensor_infos := (tensor_infos st)(out \<mapsto> tensor_info_of si)\<rparr>;
            out_tensor_set1 = insert out out_tensor_set
        in max_seed_loop M lg_info shape_secs outs
             (push_if_judged M lg_info out_tensor_set1 out st1, out_tensor_set1, max_nslice2))"

definition stripe_mine_max_slice ::
  "ir \<Rightarrow> LgInfo \<Rightarrow> shape_secs_t \<Rightarrow> TensorInfo \<Rightarrow> (bool \<times> TensorInfo) option"
where
  "stripe_mine_max_slice M lg_info shape_secs tensor_infos0 =
     (if length (group_ops lg_info) = 1 then Some (True, tensor_infos0)
      else
        (case max_seed_loop M lg_info shape_secs (group_outs lg_info) (empty_state, {}, 0) of
           None \<Rightarrow> None
         | Some (st, out_tensor_set, max_nslice) \<Rightarrow>
             (case worklist_loop M lg_info shape_secs out_tensor_set st of
                None \<Rightarrow> None
              | Some (ret, st') \<Rightarrow> Some (ret, tensor_infos st'))))"

subsection \<open>The split-search driver: \<^verbatim>\<open>update_tensor_infos\<close>, \<^verbatim>\<open>update_data_split\<close>\<close>

text \<open>
  \<^verbatim>\<open>update_tensor_infos\<close>: the first loop sets the flags of every record of the map; the
  loops over the operations and their inputs give every weight a record with its whole
  extent as the single slice.
\<close>

fun weight_inputs_loop :: "ir \<Rightarrow> LgInfo \<Rightarrow> Value list \<Rightarrow> TensorInfo \<Rightarrow> TensorInfo" where
  "weight_inputs_loop M lg_info [] infos = infos"
| "weight_inputs_loop M lg_info (v # vs) infos =
     (if (case getDefiningOp M v of None \<Rightarrow> False | Some src_op \<Rightarrow> getKind M src_op = WeightOp)
      then weight_inputs_loop M lg_info vs
             (infos(v \<mapsto> \<lparr>slice_info = \<lparr>si_n = [(0, getN M v (type' lg_info))],
                                         si_h = [(0, getH M v (type' lg_info))]\<rparr>,
                          eu_align = is_eu_align M v, need_bcast = need_bcast' M v,
                          use_3ic_opt = 0\<rparr>))
      else weight_inputs_loop M lg_info vs infos)"

fun weight_ops_loop :: "ir \<Rightarrow> LgInfo \<Rightarrow> Operation list \<Rightarrow> TensorInfo \<Rightarrow> TensorInfo" where
  "weight_ops_loop M lg_info [] infos = infos"
| "weight_ops_loop M lg_info (opr # ops) infos =
     weight_ops_loop M lg_info ops (weight_inputs_loop M lg_info (get_input_values M opr) infos)"

definition update_tensor_infos :: "ir \<Rightarrow> LgInfo \<Rightarrow> TensorInfo \<Rightarrow> TensorInfo" where
  "update_tensor_infos M lg_info infos =
     weight_ops_loop M lg_info (group_ops lg_info)
       (\<lambda>v. map_option
               (\<lambda>ti. ti\<lparr>use_3ic_opt := use_3ic M v, eu_align := is_eu_align M v,
                        need_bcast := need_bcast' M v\<rparr>)
               (infos v))"

text \<open>
  One pass of the loop of \<^verbatim>\<open>update_data_split\<close> for the loop counter \<open>nsec\<close>. It ends in
  \<^verbatim>\<open>return false\<close>, in \<^verbatim>\<open>break\<close> or at the end of the body; besides the new split factors
  and schedule it reports the values \<^verbatim>\<open>shape_secs\<close> took in this pass, in order.
\<close>

datatype step_exit = Return_false | Break | Continue

definition split_step ::
  "ir \<Rightarrow> LgInfo \<Rightarrow> shape_secs_t \<Rightarrow> int \<Rightarrow> shape_secs_t \<Rightarrow> BasicTimeStep
     \<Rightarrow> (step_exit \<times> shape_secs_t \<times> BasicTimeStep \<times> shape_secs_t list) option"
where
  "split_step M lg_info max_shape_secs nsec shape_secs time_step =
     (let shape_secs1 = shape_secs\<lparr>nsecs := nsec\<rparr>;
          time_step1 = time_step\<lparr>get_tensor_infos := Map.empty\<rparr>
      in case stripe_mine_max_slice M lg_info shape_secs1 (get_tensor_infos time_step1) of
           None \<Rightarrow> None
         | Some (ret, infos) \<Rightarrow>
             let time_step2 = time_step1\<lparr>get_tensor_infos := infos\<rparr> in
             if \<not> ret then Some (Return_false, shape_secs1, time_step2, [shape_secs1])
             else
               let time_step3 = update_all_mem_buffer_size M lg_info time_step2 in
               (case get_split_max_secs M time_step3 of
                  None \<Rightarrow> None
                | Some total_secs \<Rightarrow>
                    let shape_secs2 = shape_secs1\<lparr>nsecs :=
                          max (nsecs shape_secs1) (min (nsecs max_shape_secs) total_secs)\<rparr>
                    in if nsecs shape_secs2 = 0 then None
                       else
                         let shape_secs3 = shape_secs2\<lparr>hsecs :=
                               ceiling_func total_secs (nsecs shape_secs2)\<rparr>
                         in Some (if hsecs shape_secs3 \<le> hsecs max_shape_secs then Break
                                  else Continue,
                                  shape_secs3, time_step3,
                                  [shape_secs1, shape_secs2, shape_secs3])))"

text \<open>
  The loop \<^verbatim>\<open>for (nsec = 1; nsec <= max_shape_secs.nsecs; ++nsec)\<close>. Two lists are carried
  along for the statements about the search and change nothing in it: \<open>hist\<close>, every value
  \<^verbatim>\<open>shape_secs\<close> has taken, and \<open>tried\<close>, the split factors the propagator was run with.
  The exit \<open>Continue\<close> of the loop means that the counter passed the ceiling.
\<close>

function update_data_split_loop ::
  "ir \<Rightarrow> LgInfo \<Rightarrow> shape_secs_t \<Rightarrow> int \<Rightarrow> shape_secs_t \<Rightarrow> BasicTimeStep
     \<Rightarrow> shape_secs_t list \<Rightarrow> shape_secs_t list
     \<Rightarrow> (step_exit \<times> shape_secs_t \<times> BasicTimeStep \<times> shape_secs_t list \<times> shape_secs_t list) option"
where
  "update_data_split_loop M lg_info max_shape_secs nsec shape_secs time_step hist tried =
     (if nsec \<le> nsecs max_shape_secs then
        (case split_step M lg_info max_shape_secs nsec shape_secs time_step of
           None \<Rightarrow> None
         | Some (ex, shape_secs', time_step', pts) \<Rightarrow>
             if ex = Continue
             then update_data_split_loop M lg_info max_shape_secs (nsec + 1) shape_secs' time_step'
                    (hist @ pts) (tried @ [shape_secs\<lparr>nsecs := nsec\<rparr>])
             else Some (ex, shape_secs', time_step', hist @ pts,
                        tried @ [shape_secs\<lparr>nsecs := nsec\<rparr>]))
      else Some (Continue, shape_secs, time_step, hist, tried))"
  by pat_completeness auto
termination
  by (relation "measure (\<lambda>(M, lg_info, max_shape_secs, nsec, rest). nat (nsecs max_shape_secs + 1 - nsec))")
     auto

declare update_data_split_loop.simps [simp del]

text \<open>
  The result is the returned flag, the split factors and the schedule (both passed by
  reference), and the two lists. \<^verbatim>\<open>return false\<close> inside the loop leaves the function
  before \<^verbatim>\<open>update_tensor_infos\<close>.
\<close>

definition update_data_split ::
  "ir \<Rightarrow> BasicTimeStep \<Rightarrow> LgInfo
     \<Rightarrow> (bool \<times> shape_secs_t \<times> BasicTimeStep \<times> shape_secs_t list \<times> shape_secs_t list) option"
where
  "update_data_split M time_step lg_info =
     (let shape_secs = \<lparr>nsecs = 1, hsecs = 1\<rparr> in
      case get_group_max_secs M lg_info of
        None \<Rightarrow> None
      | Some max_shape_secs \<Rightarrow>
          (case update_data_split_loop M lg_info max_shape_secs 1 shape_secs time_step
                  [shape_secs] [] of
             None \<Rightarrow> None
           | Some (ex, shape_secs', time_step', hist, tried) \<Rightarrow>
               if ex = Return_false then Some (False, shape_secs', time_step', hist, tried)
               else Some (ex = Break, shape_secs',
                          time_step'\<lparr>get_tensor_infos :=
                            update_tensor_infos M lg_info (get_tensor_infos time_step')\<rparr>,
                          hist, tried)))"

subsection \<open>Predicates the theorems are stated with\<close>

text \<open>
  \<open>chain a b ps\<close>: the pairs \<open>ps\<close> are adjacent pieces of non-negative length that start at
  \<open>a\<close> and end at \<open>b\<close>: sorted by start, contiguous, non-overlapping, covering \<open>[a, b)\<close>.
\<close>

fun chain :: "int \<Rightarrow> int \<Rightarrow> slice_pair_t list \<Rightarrow> bool" where
  "chain a b [] = (a = b)"
| "chain a b (p # ps) = (fst p = a \<and> 0 \<le> snd p \<and> chain (a + snd p) b ps)"

text \<open>
  \<open>balanced_partition e s ps\<close>: \<open>ps\<close> cuts \<open>[0, e)\<close> into \<open>s\<close> adjacent pieces, the first
  \<open>e mod s\<close> of length \<open>e div s + 1\<close> and the others of length \<open>e div s\<close>.
\<close>

definition balanced_partition :: "int \<Rightarrow> int \<Rightarrow> slice_pair_t list \<Rightarrow> bool" where
  "balanced_partition e s ps \<longleftrightarrow>
     length ps = nat s \<and> chain 0 e ps \<and>
     list_all (\<lambda>i. snd (ps ! i) = e div s + (if int i < e mod s then 1 else 0)) [0..<length ps]"

text \<open>
  \<open>h_slice_rejected bk out_h i\<close>: the height loop rejects output slice \<open>i\<close>: the operation
  rejects it, or maps it to an empty slice, or to a slice that starts at 0 although
  \<open>i > 0\<close>, or to a slice that ends where the slice mapped before it ended (or at 0 for
  the first).
\<close>

definition h_prev_end :: "(int \<Rightarrow> int \<Rightarrow> (int \<times> int) option) \<Rightarrow> slice_pair_t list \<Rightarrow> nat \<Rightarrow> int" where
  "h_prev_end bk out_h i =
     (if i = 0 then 0
      else (case bk (fst (out_h ! (i - 1))) (snd (out_h ! (i - 1))) of
              None \<Rightarrow> 0
            | Some (idx, slice) \<Rightarrow> idx + slice))"

definition h_slice_rejected ::
  "(int \<Rightarrow> int \<Rightarrow> (int \<times> int) option) \<Rightarrow> slice_pair_t list \<Rightarrow> nat \<Rightarrow> bool"
where
  "h_slice_rejected bk out_h i =
     (case bk (fst (out_h ! i)) (snd (out_h ! i)) of
        None \<Rightarrow> True
      | Some (idx, slice) \<Rightarrow>
          slice = 0 \<or> (idx = 0 \<and> i > 0) \<or> idx + slice = h_prev_end bk out_h i)"

text \<open>
  \<open>degenerate_slices secs outs\<close>: the pair \<open>(0, 1)\<close> once for every output slice (once in
  all when the dimension has a single section).
\<close>

definition degenerate_slices :: "int \<Rightarrow> slice_pair_t list \<Rightarrow> slice_pair_t list" where
  "degenerate_slices secs outs = (if secs = 1 then [(0, 1)] else map (\<lambda>_. (0, 1)) outs)"

text \<open>
  \<open>live T b ts\<close>: buffer \<open>b\<close> occupies time step \<open>ts\<close> of a schedule with \<open>T\<close> steps: the
  interval \<open>[start, end]\<close>, or \<open>[0, end]\<close> and \<open>[start, T - 1]\<close> when it wraps.
  \<open>demand\<close> sums the sizes of the buffers live at a step, \<open>peak_demand\<close> is its maximum
  over the steps \<open>0, \<dots>, T - 1\<close>, and \<open>in_schedule\<close> says that a buffer starts and ends at
  steps of the schedule.
\<close>

definition live :: "int \<Rightarrow> mem_buffer_value_t \<Rightarrow> int \<Rightarrow> bool" where
  "live T b ts \<longleftrightarrow>
     (if start_ts b \<le> end_ts b then start_ts b \<le> ts \<and> ts \<le> end_ts b
      else (0 \<le> ts \<and> ts \<le> end_ts b) \<or> (start_ts b \<le> ts \<and> ts \<le> T - 1))"

definition demand :: "int \<Rightarrow> mem_buffer_value_t list \<Rightarrow> int \<Rightarrow> int" where
  "demand T bufs ts = (\<Sum>b\<leftarrow>bufs. if live T b ts then size' b else 0)"

definition peak_demand :: "int \<Rightarrow> mem_buffer_value_t list \<Rightarrow> int" where
  "peak_demand T bufs = Max (set (map (\<lambda>i. demand T bufs (int i)) [0..<nat T]))"

definition in_schedule :: "int \<Rightarrow> mem_buffer_value_t \<Rightarrow> bool" where
  "in_schedule T b \<longleftrightarrow> 0 \<le> start_ts b \<and> start_ts b < T \<and> 0 \<le> end_ts b \<and> end_ts b < T"

text \<open>
  \<open>secs_rel M ty vs st st' st2 st2'\<close> relates two runs of the loops of
  \<^verbatim>\<open>get_group_max_secs\<close> over the same outputs \<open>vs\<close>, from the states \<open>st\<close> and \<open>st2\<close> to
  \<open>st'\<close> and \<open>st2'\<close>: the bounds only go down, and they are monotone in the state the
  loop starts from. It is used in the proofs about merged groups.
\<close>

definition secs_rel :: "ir \<Rightarrow> group_type_t \<Rightarrow> Value list \<Rightarrow> int \<times> int \<times> int \<Rightarrow> int \<times> int \<times> int
    \<Rightarrow> int \<times> int \<times> int \<Rightarrow> int \<times> int \<times> int \<Rightarrow> bool" where
  "secs_rel M ty vs st st' st2 st2' \<longleftrightarrow>
     (case (st, st', st2, st2') of ((mn, mh, al), (mn', mh', al'), (mn2, mh2, al2), (mn2', mh2', al2')) \<Rightarrow>
        (ALIGN_4N M \<or> al2' = al') \<and> (mn2 \<le> mn \<longrightarrow> mn2' \<le> mn') \<and> (mh2 \<le> mh \<longrightarrow> mh2' \<le> mh')
        \<and> mn2' \<le> mn2 \<and> (\<forall>B. 1 \<le> B \<and> mh2 \<le> B \<longrightarrow> mh2' \<le> B)
        \<and> ((\<forall>v\<in>set vs. 1 \<le> getH M v ty) \<and> 1 \<le> mh2 \<longrightarrow> mh2' \<le> mh2 \<and> 1 \<le> mh2'))"

text \<open>
  \<open>propagation_fails M lg c\<close>: the bounding-mode propagator returns \<^verbatim>\<open>false\<close> for the split
  factors \<open>c\<close> (on the cleared map the driver passes).
\<close>

definition propagation_fails :: "ir \<Rightarrow> LgInfo \<Rightarrow> shape_secs_t \<Rightarrow> bool" where
  "propagation_fails M lg c \<longleftrightarrow>
     (case stripe_mine_max_slice M lg c Map.empty of
        None \<Rightarrow> False
      | Some (ret, infos) \<Rightarrow> \<not> ret)"

text \<open>
  \<open>demand_positive M lg\<close>: the buffer accountant asks for at least one section whatever the
  schedule it runs on.
\<close>

definition demand_positive :: "ir \<Rightarrow> LgInfo \<Rightarrow> bool" where
  "demand_positive M lg \<longleftrightarrow>
     (\<forall>time_step secs.
        get_split_max_secs M (update_all_mem_buffer_size M lg time_step) = Some secs \<longrightarrow> 1 \<le> secs)"

text \<open>
  \<open>derives M lg ss infos c out v\<close>: the record of \<open>v\<close> in the map holds the slices that the
  backward mapping of the consumer \<open>c\<close> derives for its operand \<open>v\<close> from the record of its
  result \<open>out\<close>.
\<close>

definition derives ::
  "ir \<Rightarrow> LgInfo \<Rightarrow> shape_secs_t \<Rightarrow> TensorInfo \<Rightarrow> Operation \<Rightarrow> Value \<Rightarrow> Value \<Rightarrow> bool"
where
  "derives M lg ss infos c out v \<longleftrightarrow>
     (case (infos out, infos v) of
        (Some t_out, Some t_v) \<Rightarrow>
          (case get_backward_slice_info M (slice_info t_out) c v ss (type' lg) of
             None \<Rightarrow> False
           | Some si \<Rightarrow> si_n si = si_n (slice_info t_v) \<and> si_h si = si_h (slice_info t_v))
      | _ \<Rightarrow> False)"

text \<open>
  \<open>expanded M lg ss st r\<close>: the producer of \<open>r\<close> has been visited and the records of all
  its operands (weights and none operands apart) are derived from the record of \<open>r\<close>.
\<close>

definition expanded :: "ir \<Rightarrow> LgInfo \<Rightarrow> shape_secs_t \<Rightarrow> lg_state \<Rightarrow> Value \<Rightarrow> bool" where
  "expanded M lg ss st r \<longleftrightarrow>
     (case getDefiningOp M r of
        None \<Rightarrow> False
      | Some c \<Rightarrow>
          c \<in># op_set st \<and>
          (\<forall>v\<in>set (getOperands M c). \<not> is_weight_or_none M v \<longrightarrow> derives M lg ss (tensor_infos st) c r v))"

text \<open>
  The invariant of the worklist loop: a recorded tensor that the liveness test accepts is on
  the worklist, or is a group input, or has been expanded; and every visited operation has
  a result that has been expanded.
\<close>

definition propagation_inv :: "ir \<Rightarrow> LgInfo \<Rightarrow> shape_secs_t \<Rightarrow> Value set \<Rightarrow> lg_state \<Rightarrow> bool" where
  "propagation_inv M lg ss outs st \<longleftrightarrow>
     (\<forall>r. r \<in> dom (tensor_infos st) \<and> \<not> is_weight_or_none M r
            \<and> strip_back_judge M r lg (op_set st) outs
          \<longrightarrow> r \<in> set (tensor_branchs st) \<or> r \<in> set (group_ins lg) \<or> expanded M lg ss st r)
     \<and> (\<forall>c. c \<in># op_set st \<longrightarrow> (\<exists>r. getDefiningOp M r = Some c \<and> expanded M lg ss st r))"

text \<open>
  \<open>group_wf M lg\<close>: the group is well formed. Its operations are neither weights nor
  none operations; an operation of the group that uses a tensor has it among its operands;
  every operation of the group has a result that is not a group input and is a group
  output or is used inside the group; a result of a group operation that is used outside
  the group is a group output; and the operations of the group can be ranked so that
  producers come before consumers (the graph has no cycle).
\<close>

definition group_wf :: "ir \<Rightarrow> LgInfo \<Rightarrow> bool" where
  "group_wf M lg \<longleftrightarrow>
     (\<forall>c\<in>set (group_ops lg). getKind M c \<notin> {WeightOp, NoneOp})
     \<and> (\<forall>c\<in>set (group_ops lg). \<forall>r. c \<in> set (getUsers M r) \<longrightarrow> r \<in> set (getOperands M c))
     \<and> (\<forall>c\<in>set (group_ops lg). \<exists>r. getDefiningOp M r = Some c \<and> r \<notin> set (group_ins lg)
            \<and> (r \<in> set (group_outs lg) \<or> (\<exists>u\<in>set (getUsers M r). u \<in> set (group_ops lg))))
     \<and> (\<forall>r c. getDefiningOp M r = Some c \<and> c \<in> set (group_ops lg)
            \<and> (\<exists>u\<in>set (getUsers M r). u \<notin> set (group_ops lg)) \<longrightarrow> r \<in> set (group_outs lg))
     \<and> (\<exists>rank :: Operation \<Rightarrow> nat.
           \<forall>u\<in>set (group_ops lg). \<forall>r\<in>set (getOperands M u). \<forall>c\<in>set (group_ops lg).
             getDefiningOp M r = Some c \<longrightarrow> rank c < rank u)"

text \<open>
  \<open>slice_conflict M lg ss infos out v\<close>: the tensor \<open>out\<close> is to be expanded, its producer
  has the operand \<open>v\<close> (no weight, no none operand), \<open>v\<close> already carries a record, and the
  slice info the producer derives for \<open>v\<close> from the record of \<open>out\<close> differs from it on the
  batch or on the height pairs.
\<close>

definition slice_conflict ::
  "ir \<Rightarrow> LgInfo \<Rightarrow> shape_secs_t \<Rightarrow> TensorInfo \<Rightarrow> Value \<Rightarrow> Value \<Rightarrow> bool"
where
  "slice_conflict M lg ss infos out v \<longleftrightarrow>
     out \<notin> set (group_ins lg) \<and>
     (case getDefiningOp M out of
        None \<Rightarrow> False
      | Some c \<Rightarrow>
          v \<in> set (getOperands M c) \<and> \<not> is_weight_or_none M v \<and>
          (case (infos out, infos v) of
             (Some t_out, Some t_v) \<Rightarrow>
               (case get_backward_slice_info M (slice_info t_out) c v ss (type' lg) of
                  None \<Rightarrow> False
                | Some si \<Rightarrow>
                    si_n si \<noteq> si_n (slice_info t_v) \<or> si_h si \<noteq> si_h (slice_info t_v))
           | _ \<Rightarrow> False))"

text \<open>
  \<open>consumers_consistent M lg ss infos\<close>: for every tensor \<open>v\<close> of the map and every
  operation \<open>c\<close> of the group that consumes it (weights and none operands apart), some
  result of \<open>c\<close> that is no group input is in the map, and the record of \<open>v\<close> is what \<open>c\<close>
  derives from the record of each such result.
\<close>

definition consumers_consistent :: "ir \<Rightarrow> LgInfo \<Rightarrow> shape_secs_t \<Rightarrow> TensorInfo \<Rightarrow> bool" where
  "consumers_consistent M lg ss infos \<longleftrightarrow>
     (\<forall>v c. v \<in> dom infos \<and> c \<in> set (group_ops lg) \<and> v \<in> set (getOperands M c)
             \<and> \<not> is_weight_or_none M v
          \<longrightarrow> (\<exists>out. getDefiningOp M out = Some c \<and> out \<notin> set (group_ins lg) \<and> out \<in> dom infos)
            \<and> (\<forall>out. getDefiningOp M out = Some c \<and> out \<notin> set (group_ins lg) \<and> out \<in> dom infos
                  \<longrightarrow> derives M lg ss infos c out v))"






subsection \<open>Example inputs\<close>

text \<open>A graph in which every accessor answers with a default; the examples override fields.\<close>

definition ir0 :: ir where
  "ir0 = \<lparr>getOperands = (\<lambda>_. []), getResults = (\<lambda>_. []), getKind = (\<lambda>_. OtherOp),
          getDefiningOp = (\<lambda>_. None), getUsers = (\<lambda>_. []), getShape = (\<lambda>_. []),
          isNoneType = (\<lambda>_. False), getN = (\<lambda>_ _. 1), getH = (\<lambda>_ _. 1),
          getBitWidth = (\<lambda>_. 32), AllowDataSplit = (\<lambda>_ _ _. True),
          BackwardN = (\<lambda>_ i l. Some (i, l)), BackwardH = (\<lambda>_ i l. Some (i, l)),
          ALIGN_4N = False, LMEM_BYTES = 16,
          is_eu_align = (\<lambda>_. False), need_bcast' = (\<lambda>_. False), use_3ic = (\<lambda>_. 0),
          update_all_mem_buffer_size = (\<lambda>_ time_step. time_step)\<rparr>"

text \<open>
  An Add (operation 0) of tensor 1, shape \<open>[1,3,1,4]\<close>, and tensor 2, shape \<open>[2,3,8,4]\<close>,
  whose height mapping rejects every slice.
\<close>

definition bcast_ir :: ir where
  "bcast_ir = ir0\<lparr>getOperands := (\<lambda>_. [1, 2]), getKind := (\<lambda>_. AddOp),
                 getShape := (\<lambda>v. if v = 1 then [1, 3, 1, 4] else [2, 3, 8, 4]),
                 getN := (\<lambda>v _. if v = 1 then 1 else 2),
                 getH := (\<lambda>v _. if v = 1 then 1 else 8),
                 BackwardH := (\<lambda>_ _ _. None)\<rparr>"

text \<open>A unary operation whose height mapping sends every output slice to one that starts at 0.\<close>

definition restart_ir :: ir where
  "restart_ir = ir0\<lparr>getOperands := (\<lambda>_. [1]), getH := (\<lambda>_ _. 4),
                   BackwardH := (\<lambda>_ i l. Some (0, i + l))\<rparr>"

text \<open>
  A schedule of three time steps with a buffer over steps 0 and 1, a wrapping buffer alive
  at step 2 and again at step 0, and a buffer at step 1 only.
\<close>

definition sched_ex :: BasicTimeStep where
  "sched_ex = \<lparr>get_timestep_num = 3,
               get_lmem_buffer = [\<lparr>start_ts = 0, end_ts = 1, size' = 10\<rparr>,
                              \<lparr>start_ts = 2, end_ts = 0, size' = 20\<rparr>,
                              \<lparr>start_ts = 1, end_ts = 1, size' = 7\<rparr>],
               get_tensor_infos = Map.empty\<rparr>"

text \<open>
  A chain of three operations: operation 0 maps tensor 0 to tensor 1, operation 1 maps
  tensors 2 and 1 (in this operand order) to tensor 3, operation 2 maps tensor 3 to tensor 4.
  Tensor 2 has batch extent 1, the other tensors 4; all have height 8. The groups hold
  operation 0, operation 1, operation 2, the first two, and all three.
\<close>

definition merge_ir :: ir where
  "merge_ir = ir0\<lparr>getOperands := (\<lambda>opr. if opr = 0 then [0] else if opr = 1 then [2, 1] else [3]),
                 getResults := (\<lambda>opr. if opr = 0 then [1] else if opr = 1 then [3] else [4]),
                 getDefiningOp := (\<lambda>v. if v = 1 then Some 0 else if v = 3 then Some 1
                                       else if v = 4 then Some 2 else None),
                 getUsers := (\<lambda>v. if v = 0 then [0] else if v = 1 \<or> v = 2 then [1]
                                  else if v = 3 then [2] else []),
                 getN := (\<lambda>v _. if v = 2 then 1 else 4),
                 getH := (\<lambda>_ _. 8)\<rparr>"

definition group_a :: LgInfo where
  "group_a = \<lparr>group_ops = [0], group_ins = [0], group_outs = [1], type' = 0\<rparr>"

definition group_b :: LgInfo where
  "group_b = \<lparr>group_ops = [1], group_ins = [2, 1], group_outs = [3], type' = 0\<rparr>"

definition group_c :: LgInfo where
  "group_c = \<lparr>group_ops = [2], group_ins = [3], group_outs = [4], type' = 0\<rparr>"

definition group_ab :: LgInfo where
  "group_ab = \<lparr>group_ops = [0, 1], group_ins = [0, 2], group_outs = [3], type' = 0\<rparr>"

definition group_abc :: LgInfo where
  "group_abc = \<lparr>group_ops = [0, 1, 2], group_ins = [0, 2], group_outs = [4], type' = 0\<rparr>"



text \<open>
  A chain of two operations on tensors of batch 2 and height 4 that must not be split on
  the height; the batch mapping of operation 1 rejects every slice, and the schedule holds
  one buffer of 40 bytes whatever the tensor records (the capacity is 16 bytes).
\<close>

definition chain_ir :: ir where
  "chain_ir = ir0\<lparr>getOperands := (\<lambda>opr. if opr = 0 then [0] else [1]),
                 getResults := (\<lambda>opr. if opr = 0 then [1] else [2]),
                 getDefiningOp := (\<lambda>v. if v = 1 then Some 0 else if v = 2 then Some 1 else None),
                 getUsers := (\<lambda>v. if v = 0 then [0] else if v = 1 then [1] else []),
                 getN := (\<lambda>_ _. 2), getH := (\<lambda>_ _. 4),
                 AllowDataSplit := (\<lambda>_ _ _. False),
                 BackwardN := (\<lambda>opr i l. if opr = 1 then None else Some (i, l)),
                 update_all_mem_buffer_size := (\<lambda>_ time_step.
                   time_step\<lparr>get_timestep_num := 1,
                             get_lmem_buffer := [\<lparr>start_ts = 0, end_ts = 0, size' = 40\<rparr>]\<rparr>)\<rparr>"

definition chain_group :: LgInfo where
  "chain_group = \<lparr>group_ops = [0, 1], group_ins = [0], group_outs = [2], type' = 0\<rparr>"

definition empty_step :: BasicTimeStep where
  "empty_step = \<lparr>get_timestep_num = 1, get_lmem_buffer = [], get_tensor_infos = Map.empty\<rparr>"


text \<open>
  A diamond: operation 0 maps tensor 0 to tensor 1; operations 1 (elementwise) and 2
  (convolution-like on the height: kernel 3, stride 1, padding 1) both consume tensor 1 and
  produce tensors 2 and 3; operation 3 adds tensors 2 and 3 into tensor 4. All tensors have
  batch 1 and height 4. The group holds the four operations, with input 0 and output 4.
\<close>

definition diamond_ir :: ir where
  "diamond_ir = ir0\<lparr>
     getOperands := (\<lambda>opr. if opr = 0 then [0] else if opr = 1 then [1] else if opr = 2 then [1]
                            else [2, 3]),
     getResults := (\<lambda>opr. [Suc opr]),
     getKind := (\<lambda>opr. if opr = 3 then AddOp else OtherOp),
     getDefiningOp := (\<lambda>v. if v = 1 then Some 0 else if v = 2 then Some 1 else if v = 3 then Some 2
                             else if v = 4 then Some 3 else None),
     getUsers := (\<lambda>v. if v = 0 then [0] else if v = 1 then [1, 2] else if v = 2 then [3]
                       else if v = 3 then [3] else []),
     getShape := (\<lambda>_. [1, 1, 4, 1]),
     getN := (\<lambda>_ _. 1), getH := (\<lambda>_ _. 4),
     BackwardH := (\<lambda>opr i l. if opr = 2
                     then Some (max 0 (i - 1), min 4 (i + l + 1) - max 0 (i - 1))
                     else Some (i, l))\<rparr>"

definition diamond_group :: LgInfo where
  "diamond_group = \<lparr>group_ops = [0, 1, 2, 3], group_ins = [0], group_outs = [4], type' = 0\<rparr>"

text \<open>
  The records at the moment tensor 3 is expanded with two height sections: tensor 1 has
  its record from operation 1.
\<close>

definition diamond_infos :: TensorInfo where
  "diamond_infos =
     [3 \<mapsto> tensor_info_of \<lparr>si_n = [(0, 1)], si_h = [(0, 2), (2, 2)]\<rparr>,
      1 \<mapsto> tensor_info_of \<lparr>si_n = [(0, 1)], si_h = [(0, 2), (2, 2)]\<rparr>]"



text \<open>
  A Div (operation 0) of tensor 1, shape \<open>[1,3,1,4]\<close>, and tensor 2, shape \<open>[2,3,8,4]\<close>,
  whose height mapping is the identity of an elementwise operation; and the same graph with
  an Add in the place of the Div.
\<close>

definition div_ir :: ir where
  "div_ir = ir0\<lparr>getOperands := (\<lambda>_. [1, 2]), getKind := (\<lambda>_. DivOp),
               getShape := (\<lambda>v. if v = 1 then [1, 3, 1, 4] else [2, 3, 8, 4]),
               getN := (\<lambda>v _. if v = 1 then 1 else 2),
               getH := (\<lambda>v _. if v = 1 then 1 else 8)\<rparr>"

definition add_ir :: ir where
  "add_ir = div_ir\<lparr>getKind := (\<lambda>_. AddOp)\<rparr>"

section \<open>Properties\<close>

subsection \<open>Arithmetic helpers\<close>

lemma c_div_nonneg: "0 \<le> a \<Longrightarrow> 0 < b \<Longrightarrow> c_div a b = a div b"
  by (cases "a = 0") (simp_all add: c_div_def)

lemma c_mod_nonneg: "0 \<le> a \<Longrightarrow> 0 < b \<Longrightarrow> c_mod a b = a mod b"
  by (simp add: c_mod_def c_div_nonneg minus_mult_div_eq_mod)

subsection \<open>The exact-mode partition\<close>

lemma out_slice_closed:
  assumes "0 \<le> e" "0 < s" "0 \<le> i" "i < s"
  shows "out_slice e s i = ((e div s) * i + min i (e mod s), e div s + (if i < e mod s then 1 else 0))"
proof -
  let ?q = "e div s" and ?r = "e mod s"
  have q0: "0 \<le> ?q" using assms by (simp add: pos_imp_zdiv_nonneg_iff)
  have r0: "0 \<le> ?r" "?r < s" using assms by simp_all
  have e: "e = ?q * s + ?r" by simp
  have "?q * 1 \<le> ?q * (s - i)" using q0 assms by (intro mult_left_mono) simp_all
  then have ge: "?q * s - ?q * i \<ge> ?q" by (simp add: right_diff_distrib)
  have rem: "e - ?q * i = ?q * s - ?q * i + ?r" using e by linarith
  show ?thesis
  proof (cases "i < ?r")
    case True
    have "e - (?q * i + i) \<ge> ?q + 1" using ge rem True by linarith
    then show ?thesis using True assms
      by (simp add: out_slice_def c_div_nonneg c_mod_nonneg Let_def min_def)
  next
    case False
    have "e - (?q * i + ?r) \<ge> ?q" using ge rem by linarith
    then show ?thesis using False assms
      by (simp add: out_slice_def c_div_nonneg c_mod_nonneg Let_def min_def)
  qed
qed

lemma length_out_slices: "length (out_slices e s) = nat s"
  by (simp add: out_slices_def)

lemma nth_out_slices: "i < nat s \<Longrightarrow> out_slices e s ! i = out_slice e s (int i)"
  by (simp add: out_slices_def)

lemma out_slices_nth_closed:
  assumes "0 \<le> e" "0 < s" "i < nat s"
  shows "out_slices e s ! i = ((e div s) * int i + min (int i) (e mod s), e div s + (if int i < e mod s then 1 else 0))"
  using assms by (simp add: nth_out_slices out_slice_closed)

lemma chain_sum: "chain a b ps \<Longrightarrow> sum_list (map snd ps) = b - a"
  by (induction ps arbitrary: a) auto

lemma chain_map_upt:
  assumes "\<And>i. k \<le> i \<Longrightarrow> i < m \<Longrightarrow> f i = (g i, g (Suc i) - g i) \<and> g i \<le> g (Suc i)"
    and "k \<le> m"
  shows "chain (g k) (g m) (map f [k..<m])"
  using assms
proof (induction "m - k" arbitrary: k)
  case 0
  then show ?case by simp
next
  case (Suc d)
  then have lt: "k < m" by simp
  have step: "f k = (g k, g (Suc k) - g k) \<and> g k \<le> g (Suc k)" using Suc.prems(1)[of k] lt by simp
  have "chain (g (Suc k)) (g m) (map f [Suc k..<m])"
    using Suc.hyps(1)[of "Suc k"] Suc.hyps(2) Suc.prems lt by simp
  then show ?case using lt step by (simp add: upt_conv_Cons)
qed

lemma chain_out_slices:
  assumes "0 \<le> e" "0 < s"
  shows "chain 0 e (out_slices e s)"
proof -
  define g where "g i = (e div s) * int i + min (int i) (e mod s)" for i :: nat
  have q0: "0 \<le> e div s" using assms by (simp add: pos_imp_zdiv_nonneg_iff)
  have r: "0 \<le> e mod s" "e mod s < s" using assms by simp_all
  have "chain (g 0) (g (nat s)) (map (\<lambda>i. out_slice e s (int i)) [0..<nat s])"
  proof (rule chain_map_upt)
    fix i assume "0 \<le> i" "i < nat s"
    then show "out_slice e s (int i) = (g i, g (Suc i) - g i) \<and> g i \<le> g (Suc i)"
      using assms q0 by (simp add: out_slice_closed g_def min_def algebra_simps)
  qed simp
  moreover have "g 0 = 0" using r by (simp add: g_def)
  moreover have "g (nat s) = e"
  proof -
    have "min s (e mod s) = e mod s" using r by simp
    then show ?thesis using assms by (simp add: g_def)
  qed
  ultimately show ?thesis by (simp add: out_slices_def)
qed

lemma out_slices_balanced:
  assumes "0 \<le> e" "0 < s"
  shows "balanced_partition e s (out_slices e s)"
  using assms
  by (simp add: balanced_partition_def length_out_slices chain_out_slices list_all_iff
      out_slices_nth_closed)

text \<open>
  C3 (as the source has it). For an extent \<open>e \<ge> 1\<close> and a section count \<open>1 \<le> s \<le> e\<close>,
  \<^verbatim>\<open>get_out_slice_info\<close> cuts \<open>[0, e)\<close> on either dimension into exactly \<open>s\<close> adjacent,
  non-empty pieces; the first \<open>e mod s\<close> pieces have \<open>e div s + 1\<close> elements and the others
  \<open>e div s\<close>. The remainder is spread over the leading pieces, one element each.
\<close>

theorem get_out_slice_info_balanced:
  assumes "1 \<le> s" "s \<le> e"
  shows "balanced_partition e s (si_n (get_out_slice_info \<lparr>nsecs = s, hsecs = s'\<rparr> e e'))
       \<and> balanced_partition e s (si_h (get_out_slice_info \<lparr>nsecs = s', hsecs = s\<rparr> e' e))
       \<and> list_all (\<lambda>p. 1 \<le> snd p) (out_slices e s)"
proof -
  have e0: "0 \<le> e" "0 < s" using assms by simp_all
  have q: "1 \<le> e div s" using zdiv_mono1[of s e s] assms by simp
  have "\<forall>i<nat s. 1 \<le> snd (out_slices e s ! i)"
    using e0 q by (simp add: out_slices_nth_closed)
  then have "list_all (\<lambda>p. 1 \<le> snd p) (out_slices e s)"
    by (simp add: list_all_length length_out_slices)
  then show ?thesis
    using out_slices_balanced[OF e0] by (simp add: get_out_slice_info_def)
qed

theorem get_out_slice_info_balanced_witness:
  "balanced_partition 7 3 (si_n (get_out_slice_info \<lparr>nsecs = 3, hsecs = 2\<rparr> 7 5))
   \<and> si_n (get_out_slice_info \<lparr>nsecs = 3, hsecs = 2\<rparr> 7 5) = [(0, 3), (3, 2), (5, 2)]"
proof -
  have h: "(1::int) \<le> 3" "(3::int) \<le> 7" by simp_all
  have "si_n (get_out_slice_info \<lparr>nsecs = 3, hsecs = 2\<rparr> 7 5) = [(0, 3), (3, 2), (5, 2)]"
    by (simp add: get_out_slice_info_def out_slices_def out_slice_def c_div_def c_mod_def
        upt_conv_Cons)
  then show ?thesis
    using get_out_slice_info_balanced [OF h, of 2 5] by simp
qed

text \<open>
  C3 as stated fails: for \<open>e = 7\<close> and \<open>s = 3\<close> the remainder \<open>7 mod 3 = 1\<close> goes to the
  first piece; the last piece has \<open>7 div 3 = 2\<close> elements like the one before it, and the
  pieces before the last do not have one common length.
\<close>

theorem get_out_slice_info_remainder_first:
  "si_n (get_out_slice_info \<lparr>nsecs = 3, hsecs = 1\<rparr> 7 1) = [(0, 3), (3, 2), (5, 2)]"
  by (simp add: get_out_slice_info_def out_slices_def out_slice_def c_div_def c_mod_def
      upt_conv_Cons)

subsection \<open>Backward mapping of one operand\<close>

lemma backward_h_loop_bc: "backward_h_loop bk True pre i ss = Some (map (\<lambda>_. (0, 1)) ss)"
  by (induction ss arbitrary: pre i) simp_all

lemma backward_n_loop_bc: "backward_n_loop bk True ss = Some (map (\<lambda>_. (0, 1)) ss)"
  by (induction ss) simp_all

lemma backward_h_loop_None:
  assumes "k \<le> length out_h"
  shows "backward_h_loop bk False (h_prev_end bk out_h k) k (drop k out_h) = None
         \<longleftrightarrow> (\<exists>j. k \<le> j \<and> j < length out_h \<and> h_slice_rejected bk out_h j)"
  using assms
proof (induction "length out_h - k" arbitrary: k)
  case 0
  then show ?case by simp
next
  case (Suc d)
  then have lt: "k < length out_h" by simp
  have dr: "drop k out_h = out_h ! k # drop (Suc k) out_h"
    using lt by (simp add: Cons_nth_drop_Suc)
  show ?case
  proof (cases "h_slice_rejected bk out_h k")
    case True
    then have "backward_h_loop bk False (h_prev_end bk out_h k) k (drop k out_h) = None"
      by (auto simp: dr h_slice_rejected_def Let_def split: option.splits)
    then show ?thesis using True lt by auto
  next
    case False
    obtain idx slice where bk: "bk (fst (out_h ! k)) (snd (out_h ! k)) = Some (idx, slice)"
      using False by (cases "bk (fst (out_h ! k)) (snd (out_h ! k))") (auto simp: h_slice_rejected_def)
    have ok: "slice \<noteq> 0" "idx = 0 \<longrightarrow> k = 0" "idx + slice \<noteq> h_prev_end bk out_h k"
      using False bk by (simp_all add: h_slice_rejected_def)
    have pe: "h_prev_end bk out_h (Suc k) = idx + slice" using bk by (simp add: h_prev_end_def)
    have IH: "backward_h_loop bk False (h_prev_end bk out_h (Suc k)) (Suc k) (drop (Suc k) out_h) = None
         \<longleftrightarrow> (\<exists>j. Suc k \<le> j \<and> j < length out_h \<and> h_slice_rejected bk out_h j)"
      using Suc.hyps(1)[of "Suc k"] Suc.hyps(2) lt by simp
    have "backward_h_loop bk False (h_prev_end bk out_h k) k (drop k out_h) = None
       \<longleftrightarrow> backward_h_loop bk False (idx + slice) (Suc k) (drop (Suc k) out_h) = None"
      using bk ok by (auto simp add: dr Let_def)
    also have "\<dots> \<longleftrightarrow> (\<exists>j. Suc k \<le> j \<and> j < length out_h \<and> h_slice_rejected bk out_h j)"
      using IH pe by simp
    also have "\<dots> \<longleftrightarrow> (\<exists>j. k \<le> j \<and> j < length out_h \<and> h_slice_rejected bk out_h j)"
      using False by (metis Suc_leD Suc_leI le_neq_implies_less)
    finally show ?thesis .
  qed
qed

lemma backward_h_loop_rejects:
  "backward_h_loop bk False 0 0 out_h = None \<longleftrightarrow> (\<exists>j<length out_h. h_slice_rejected bk out_h j)"
  using backward_h_loop_None[of 0 out_h bk] by (simp add: h_prev_end_def)

lemma backward_h_not_broadcast:
  assumes "hsecs ss \<noteq> 1" "\<not> (is_broadcast_binary M opr v \<and> getH M v ty = 1)"
  shows "backward_h M out_si opr v ss ty = None
         \<longleftrightarrow> (\<exists>i<length (si_h out_si). h_slice_rejected (BackwardH M opr) (si_h out_si) i)"
  using assms backward_h_loop_rejects[of "BackwardH M opr" "si_h out_si"]
  by (cases "is_broadcast_binary M opr v") (auto simp: backward_h_def Let_def)

lemma backward_h_broadcast:
  assumes "is_broadcast_binary M opr v" "getH M v ty = 1"
  shows "backward_h M out_si opr v ss ty = Some (degenerate_slices (hsecs ss) (si_h out_si))"
  using assms by (simp add: backward_h_def degenerate_slices_def backward_h_loop_bc)

lemma backward_n_broadcast:
  assumes "is_broadcast_binary M opr v" "getN M v ty = 1"
  shows "backward_n M out_si opr v ss ty = Some (degenerate_slices (nsecs ss) (si_n out_si))"
  using assms by (simp add: backward_n_def degenerate_slices_def backward_n_loop_bc)

text \<open>
  Let \<open>v\<close> be a broadcast operand of \<open>opr\<close> as \<^verbatim>\<open>is_broadcast_binary\<close> decides it (an
  operand of an Add, Sub, Mul, Max or Min that has extent 1 on an axis where the other
  operand differs), with
  true extent 1 on a dimension. Then on that dimension \<^verbatim>\<open>get_backward_slice_info\<close> gives
  \<open>v\<close> the pair \<open>(0, 1)\<close> for every output slice (a single \<open>(0, 1)\<close> when the dimension has
  one section), whatever the split factors are and whatever the backward mapping of the
  operation returns; the function fails only if the other dimension does.
\<close>

lemma broadcast_binary_degenerate:
  assumes "is_broadcast_binary M opr v"
  shows "(getH M v ty = 1 \<longrightarrow>
            get_backward_slice_info M out_si opr v ss ty =
              map_option (\<lambda>ns. \<lparr>si_n = ns, si_h = degenerate_slices (hsecs ss) (si_h out_si)\<rparr>)
                (backward_n M out_si opr v ss ty))
       \<and> (getN M v ty = 1 \<longrightarrow>
            get_backward_slice_info M out_si opr v ss ty =
              map_option (\<lambda>hs. \<lparr>si_n = degenerate_slices (nsecs ss) (si_n out_si), si_h = hs\<rparr>)
                (backward_h M out_si opr v ss ty))"
proof (intro conjI impI)
  assume h: "getH M v ty = 1"
  show "get_backward_slice_info M out_si opr v ss ty =
          map_option (\<lambda>ns. \<lparr>si_n = ns, si_h = degenerate_slices (hsecs ss) (si_h out_si)\<rparr>)
            (backward_n M out_si opr v ss ty)"
    using backward_h_broadcast[OF assms h]
    by (simp add: get_backward_slice_info_def split: option.splits)
next
  assume n: "getN M v ty = 1"
  show "get_backward_slice_info M out_si opr v ss ty =
          map_option (\<lambda>hs. \<lparr>si_n = degenerate_slices (nsecs ss) (si_n out_si), si_h = hs\<rparr>)
            (backward_h M out_si opr v ss ty)"
    using backward_n_broadcast[OF assms n]
    by (simp add: get_backward_slice_info_def split: option.splits)
qed

lemma broadcast_binary_degenerate_example:
  "is_broadcast_binary bcast_ir 0 1 \<and> getH bcast_ir 1 0 = 1
   \<and> get_backward_slice_info bcast_ir \<lparr>si_n = [(0, 2)], si_h = [(0, 4), (4, 4)]\<rparr> 0 1
        \<lparr>nsecs = 1, hsecs = 2\<rparr> 0
      = Some \<lparr>si_n = [(0, 1)], si_h = [(0, 1), (0, 1)]\<rparr>"
proof -
  have b: "is_broadcast_binary bcast_ir 0 1"
    by (simp add: is_broadcast_binary_def bcast_ir_def ir0_def upt_conv_Cons)
  have h: "getH bcast_ir 1 0 = 1" by (simp add: bcast_ir_def ir0_def)
  have n: "backward_n bcast_ir \<lparr>si_n = [(0, 2)], si_h = [(0, 4), (4, 4)]\<rparr> 0 1
             \<lparr>nsecs = 1, hsecs = 2\<rparr> 0 = Some [(0, 1)]"
    by (simp add: backward_n_def bcast_ir_def ir0_def)
  show ?thesis
    using broadcast_binary_degenerate [OF b, of 0 "\<lparr>si_n = [(0, 2)], si_h = [(0, 4), (4, 4)]\<rparr>"
        "\<lparr>nsecs = 1, hsecs = 2\<rparr>"] b h n
    by (simp add: degenerate_slices_def)
qed

text \<open>
  C4 (a defect of the code). \<^verbatim>\<open>is_broadcast_binary\<close> lists Add, Sub, Mul, Max and Min but
  not Div, which \<^verbatim>\<open>get_group_max_secs\<close> lists among the binary operations. An operand of
  a Div with height 1, against an operand of height 8, is therefore not taken for a
  broadcast operand: with two height sections it gets the slices \<open>(0, 4)\<close> and \<open>(4, 4)\<close>
  that the backward mapping returns, which lie outside its extent, where the same operand
  of an Add gets \<open>(0, 1)\<close> twice.
\<close>

theorem div_operand_not_degenerate:
  "getH div_ir 1 0 = 1
   \<and> get_backward_slice_info div_ir \<lparr>si_n = [(0, 2)], si_h = [(0, 4), (4, 4)]\<rparr> 0 1
        \<lparr>nsecs = 1, hsecs = 2\<rparr> 0
      = Some \<lparr>si_n = [(0, 1)], si_h = [(0, 4), (4, 4)]\<rparr>
   \<and> get_backward_slice_info add_ir \<lparr>si_n = [(0, 2)], si_h = [(0, 4), (4, 4)]\<rparr> 0 1
        \<lparr>nsecs = 1, hsecs = 2\<rparr> 0
      = Some \<lparr>si_n = [(0, 1)], si_h = [(0, 1), (0, 1)]\<rparr>"
  by (simp add: get_backward_slice_info_def backward_n_def backward_h_def
      is_broadcast_binary_def add_ir_def div_ir_def ir0_def upt_conv_Cons)

text \<open>
  C10. With more than one height section and an operand that is not a broadcast operand of
  height 1, \<^verbatim>\<open>get_backward_slice_info\<close> fails exactly when the batch dimension fails or
  some output height slice is rejected: the operation rejects it, or maps it to an empty
  slice, or a slice after the first is mapped to an input slice that starts at index 0, or
  the mapped slice ends where the slice mapped before it ended.
\<close>

theorem backward_h_failure_cases:
  assumes "1 < hsecs ss" "\<not> (is_broadcast_binary M opr v \<and> getH M v ty = 1)"
  shows "get_backward_slice_info M out_si opr v ss ty = None
         \<longleftrightarrow> backward_n M out_si opr v ss ty = None
           \<or> (\<exists>i<length (si_h out_si). h_slice_rejected (BackwardH M opr) (si_h out_si) i)"
proof -
  have "hsecs ss \<noteq> 1" using assms(1) by simp
  from backward_h_not_broadcast[OF this assms(2), of out_si]
  show ?thesis by (auto simp: get_backward_slice_info_def split: option.splits)
qed

theorem backward_h_failure_cases_witness:
  "h_slice_rejected (BackwardH restart_ir 0) [(0, 2), (2, 2)] 1
   \<and> get_backward_slice_info restart_ir \<lparr>si_n = [(0, 1)], si_h = [(0, 2), (2, 2)]\<rparr> 0 1
        \<lparr>nsecs = 1, hsecs = 2\<rparr> 0 = None"
proof -
  have a: "(1::int) < hsecs \<lparr>nsecs = 1, hsecs = 2\<rparr>" by simp
  have b: "\<not> (is_broadcast_binary restart_ir 0 1 \<and> getH restart_ir 1 0 = 1)"
    by (simp add: restart_ir_def ir0_def)
  have r: "h_slice_rejected (BackwardH restart_ir 0) [(0, 2), (2, 2)] 1"
    by (simp add: h_slice_rejected_def restart_ir_def ir0_def)
  then have "\<exists>i<length (si_h \<lparr>si_n = [(0, 1)], si_h = [(0, 2), (2, 2)]\<rparr>).
      h_slice_rejected (BackwardH restart_ir 0) (si_h \<lparr>si_n = [(0, 1)], si_h = [(0, 2), (2, 2)]\<rparr>) i"
    by (intro exI[of _ 1]) simp
  then show ?thesis
    using backward_h_failure_cases [OF a b, of "\<lparr>si_n = [(0, 1)], si_h = [(0, 2), (2, 2)]\<rparr>"] r
    by simp
qed

subsection \<open>The buffer accountant\<close>

lemma lmem_add_spec:
  assumes "a \<le> b \<longrightarrow> 0 \<le> a \<and> b < int (length req)"
  shows "\<exists>r. lmem_add req a b sz = Some r \<and> length r = length req \<and>
             (\<forall>i<length req. r ! i = req ! i + (if a \<le> int i \<and> int i \<le> b then sz else 0))"
  using assms
proof (induction req a b sz rule: lmem_add.induct)
  case (1 req ts last sz)
  show ?case
  proof (cases "ts \<le> last")
    case False
    then show ?thesis by (simp add: lmem_add.simps)
  next
    case True
    then have rng: "0 \<le> ts" "ts < int (length req)" "last < int (length req)" using 1(2) by auto
    let ?req' = "req[nat ts := req ! nat ts + sz]"
    have "ts + 1 \<le> last \<longrightarrow> 0 \<le> ts + 1 \<and> last < int (length ?req')" using rng by simp
    from 1(1)[OF True _ this] rng obtain r where
      r: "lmem_add ?req' (ts + 1) last sz = Some r" "length r = length req"
         "\<forall>i<length req. r ! i = ?req' ! i + (if ts + 1 \<le> int i \<and> int i \<le> last then sz else 0)"
      by auto
    have "lmem_add req ts last sz = Some r"
      using True rng r(1) by (subst lmem_add.simps) simp
    moreover have "\<forall>i<length req. r ! i = req ! i + (if ts \<le> int i \<and> int i \<le> last then sz else 0)"
    proof (intro allI impI)
      fix i assume i: "i < length req"
      show "r ! i = req ! i + (if ts \<le> int i \<and> int i \<le> last then sz else 0)"
      proof (cases "i = nat ts")
        case True
        then have "int i = ts" using rng by simp
        then show ?thesis using r(3) i True \<open>ts \<le> last\<close> by simp
      next
        case False
        then have "int i \<noteq> ts" using rng by auto
        then show ?thesis using r(3) i False by auto
      qed
    qed
    ultimately show ?thesis using r(2) by simp
  qed
qed

lemma update_lmem_req_spec:
  assumes "in_schedule T b" "length req = nat T"
  shows "\<exists>r. update_lmem_req req T (start_ts b) (end_ts b) (size' b) = Some r \<and> length r = length req \<and>
             (\<forall>i<length req. r ! i = req ! i + (if live T b (int i) then size' b else 0))"
proof (cases "start_ts b \<le> end_ts b")
  case True
  have "start_ts b \<le> end_ts b \<longrightarrow> 0 \<le> start_ts b \<and> end_ts b < int (length req)"
    using assms by (simp add: in_schedule_def)
  from lmem_add_spec[OF this, of "size' b"] True show ?thesis
    by (simp add: update_lmem_req_def live_def)
next
  case False
  have T: "int (length req) = T" using assms by (simp add: in_schedule_def)
  have "0 \<le> end_ts b \<longrightarrow> 0 \<le> (0::int) \<and> end_ts b < int (length req)"
    using assms T by (simp add: in_schedule_def)
  from lmem_add_spec[OF this, of "size' b"] obtain r1 where
    r1: "lmem_add req 0 (end_ts b) (size' b) = Some r1" "length r1 = length req"
        "\<forall>i<length req. r1 ! i = req ! i + (if 0 \<le> int i \<and> int i \<le> end_ts b then size' b else 0)"
    by auto
  have "start_ts b \<le> T - 1 \<longrightarrow> 0 \<le> start_ts b \<and> T - 1 < int (length r1)"
    using assms T r1(2) by (simp add: in_schedule_def)
  from lmem_add_spec[OF this, of "size' b"] obtain r2 where
    r2: "lmem_add r1 (start_ts b) (T - 1) (size' b) = Some r2" "length r2 = length r1"
        "\<forall>i<length r1. r2 ! i = r1 ! i + (if start_ts b \<le> int i \<and> int i \<le> T - 1 then size' b else 0)"
    by auto
  have "update_lmem_req req T (start_ts b) (end_ts b) (size' b) = Some r2"
    using False r1(1) r2(1) by (simp add: update_lmem_req_def)
  moreover have "\<forall>i<length req. r2 ! i = req ! i + (if live T b (int i) then size' b else 0)"
    using r1(2,3) r2(3) False by (auto simp: live_def)
  ultimately show ?thesis using r1(2) r2(2) by simp
qed

lemma lmem_buffer_loop_spec:
  assumes "\<forall>b\<in>set bufs. in_schedule T b" "length req = nat T"
  shows "\<exists>r. lmem_buffer_loop T req bufs = Some r \<and> length r = length req \<and>
             (\<forall>i<length req. r ! i = req ! i + demand T bufs (int i))"
  using assms
proof (induction bufs arbitrary: req)
  case Nil
  then show ?case by (simp add: demand_def)
next
  case (Cons b bs)
  from update_lmem_req_spec[of T b req] Cons.prems obtain r1 where
    r1: "update_lmem_req req T (start_ts b) (end_ts b) (size' b) = Some r1" "length r1 = length req"
        "\<forall>i<length req. r1 ! i = req ! i + (if live T b (int i) then size' b else 0)"
    by auto
  from Cons.IH[of r1] Cons.prems r1(2) obtain r where
    r: "lmem_buffer_loop T r1 bs = Some r" "length r = length r1"
       "\<forall>i<length r1. r ! i = r1 ! i + demand T bs (int i)"
    by auto
  show ?case using r1 r by (simp add: demand_def)
qed

lemma lmem_buffer_loop_replicate:
  assumes "\<forall>b\<in>set bufs. in_schedule T b"
  shows "lmem_buffer_loop T (replicate (nat T) 0) bufs = Some (map (\<lambda>i. demand T bufs (int i)) [0..<nat T])"
proof -
  from lmem_buffer_loop_spec[OF assms, of "replicate (nat T) 0"] obtain r where
    r: "lmem_buffer_loop T (replicate (nat T) 0) bufs = Some r" "length r = nat T"
       "\<forall>i<nat T. r ! i = demand T bufs (int i)"
    by auto
  have "r = map (\<lambda>i. demand T bufs (int i)) [0..<nat T]"
    using r(2,3) by (intro nth_equalityI) simp_all
  then show ?thesis using r(1) by simp
qed

lemma hd_sort_desc:
  assumes "xs \<noteq> []"
  shows "sort_key (\<lambda>x. - x) xs ! 0 = Max (set (xs::int list))"
proof -
  let ?ys = "sort_key (\<lambda>x. - x) xs"
  have ne: "?ys \<noteq> []" using assms by (metis length_sort length_0_conv)
  have st: "sorted (map (\<lambda>x. - x) ?ys)" by (rule sorted_sort_key)
  have set: "set ?ys = set xs" by simp
  have "\<forall>y\<in>set ?ys. y \<le> ?ys ! 0"
  proof
    fix y assume "y \<in> set ?ys"
    then obtain j where j: "j < length ?ys" "?ys ! j = y" by (metis in_set_conv_nth)
    have "map (\<lambda>x. - x) ?ys ! 0 \<le> map (\<lambda>x. - x) ?ys ! j"
      using st j(1) by (intro sorted_nth_mono) simp_all
    moreover have "0 < length ?ys" using assms by simp
    ultimately show "y \<le> ?ys ! 0" using j by (simp add: nth_map del: length_sort)
  qed
  moreover have "?ys ! 0 \<in> set xs" using ne set by (metis length_greater_0_conv nth_mem)
  ultimately show ?thesis using set by (intro Max_eqI[symmetric]) auto
qed

lemma ceiling_func_ceiling:
  assumes "0 < b"
  shows "ceiling_func a b = \<lceil>real_of_int a / real_of_int b\<rceil>"
proof -
  have "\<lceil>real_of_int a / real_of_int b\<rceil> = - \<lfloor>real_of_int (- a) / real_of_int b\<rfloor>"
    by (simp add: ceiling_def)
  also have "\<dots> = - ((- a) div b)" by (simp only: floor_divide_of_int_eq)
  finally show ?thesis by (simp add: ceiling_func_def)
qed


lemma get_split_max_secs_value:
  assumes "1 \<le> get_timestep_num ts" "\<forall>b\<in>set (get_lmem_buffer ts). in_schedule (get_timestep_num ts) b"
  shows "get_split_max_secs M ts =
           Some (ceiling_func (peak_demand (get_timestep_num ts) (get_lmem_buffer ts)) (LMEM_BYTES M))"
proof -
  let ?T = "get_timestep_num ts"
  let ?req = "map (\<lambda>i. demand ?T (get_lmem_buffer ts) (int i)) [0..<nat ?T]"
  have ne: "?req \<noteq> []" using assms(1) by simp
  then have ne': "sort_key (\<lambda>x. - x) ?req \<noteq> []" by (metis length_sort length_0_conv)
  have "sort_key (\<lambda>x. - x) ?req ! 0 = peak_demand ?T (get_lmem_buffer ts)"
    using hd_sort_desc[OF ne] by (simp only: peak_demand_def)
  then show ?thesis
    using assms(1) ne' lmem_buffer_loop_replicate[OF assms(2)]
    by (simp add: get_split_max_secs_def Let_def del: sort_key_simps)
qed

lemma lmem_add_length: "lmem_add req a b sz = Some r \<Longrightarrow> length r = length req"
proof (induction req a b sz rule: lmem_add.induct)
  case (1 req a b sz)
  then show ?case
    by (subst (asm) (2) lmem_add.simps) (auto split: if_splits)
qed

lemma update_lmem_req_length:
  "update_lmem_req req T a b sz = Some r \<Longrightarrow> length r = length req"
  by (auto simp: update_lmem_req_def split: if_splits option.splits dest!: lmem_add_length)

lemma lmem_buffer_loop_length:
  "lmem_buffer_loop T req bufs = Some r \<Longrightarrow> length r = length req"
  by (induction bufs arbitrary: req) (auto split: option.splits dest: update_lmem_req_length)

lemma get_split_max_secs_no_step:
  assumes "get_timestep_num ts < 1"
  shows "get_split_max_secs M ts = None"
proof (cases "get_timestep_num ts < 0")
  case True
  then show ?thesis by (simp add: get_split_max_secs_def)
next
  case False
  then have T: "get_timestep_num ts = 0" using assms by simp
  show ?thesis
  proof (cases "lmem_buffer_loop 0 [] (get_lmem_buffer ts)")
    case None
    then show ?thesis using T by (simp add: get_split_max_secs_def)
  next
    case (Some r)
    then have "r = []" using lmem_buffer_loop_length by fastforce
    then show ?thesis using T Some by (simp add: get_split_max_secs_def)
  qed
qed

text \<open>
  C5. For a schedule of \<open>T \<ge> 1\<close> time steps whose buffers start and end at steps of the
  schedule, and a positive capacity, \<^verbatim>\<open>get_split_max_secs\<close> returns exactly
  \<open>\<lceil>P / capacity\<rceil>\<close>, where \<open>P\<close> is the peak over the time steps of the summed
  sizes of the buffers live at the step; a buffer with \<open>start \<le> end\<close> is live on
  \<open>[start, end]\<close> and a wrapping buffer on \<open>[0, end]\<close> and \<open>[start, T - 1]\<close>.
\<close>

theorem get_split_max_secs_peak:
  assumes "1 \<le> get_timestep_num ts"
    and "\<forall>b\<in>set (get_lmem_buffer ts). in_schedule (get_timestep_num ts) b"
    and "0 < LMEM_BYTES M"
  shows "get_split_max_secs M ts =
           Some \<lceil>real_of_int (peak_demand (get_timestep_num ts) (get_lmem_buffer ts))
                  / real_of_int (LMEM_BYTES M)\<rceil>"
  using get_split_max_secs_value[OF assms(1,2)] ceiling_func_ceiling[OF assms(3)] by simp

lemma sched_ex_in_schedule: "\<forall>b\<in>set (get_lmem_buffer sched_ex). in_schedule (get_timestep_num sched_ex) b"
  by (simp add: sched_ex_def in_schedule_def)

lemma sched_ex_peak: "peak_demand (get_timestep_num sched_ex) (get_lmem_buffer sched_ex) = 30"
  by (simp add: sched_ex_def peak_demand_def demand_def live_def upt_conv_Cons)

theorem get_split_max_secs_peak_witness:
  "peak_demand (get_timestep_num sched_ex) (get_lmem_buffer sched_ex) = 30
   \<and> get_split_max_secs ir0 sched_ex = Some 2"
proof -
  have a: "1 \<le> get_timestep_num sched_ex" by (simp add: sched_ex_def)
  have c: "0 < LMEM_BYTES ir0" by (simp add: ir0_def)
  have "LMEM_BYTES ir0 = 16" by (simp add: ir0_def)
  then show ?thesis
    using get_split_max_secs_peak [OF a sched_ex_in_schedule c] sched_ex_peak by simp
qed

text \<open>
  C9. With at least one time step and every buffer starting and ending at a step of the
  schedule, every access of \<^verbatim>\<open>get_split_max_secs\<close> to the demand vector is in range
  (the function delivers its result); without a time step the read of element 0 is out of
  range (no result).
\<close>

theorem get_split_max_secs_in_bounds:
  "(1 \<le> get_timestep_num ts \<and> (\<forall>b\<in>set (get_lmem_buffer ts). in_schedule (get_timestep_num ts) b)
      \<longrightarrow> (\<exists>secs. get_split_max_secs M ts = Some secs))
   \<and> (get_timestep_num ts < 1 \<longrightarrow> get_split_max_secs M ts = None)"
  using get_split_max_secs_value[of ts M] get_split_max_secs_no_step[of ts M] by simp

theorem get_split_max_secs_in_bounds_witness:
  "(\<exists>secs. get_split_max_secs ir0 sched_ex = Some secs)
   \<and> get_split_max_secs ir0 (sched_ex\<lparr>get_timestep_num := 0\<rparr>) = None"
proof -
  have a: "1 \<le> get_timestep_num sched_ex" by (simp add: sched_ex_def)
  have b: "get_timestep_num (sched_ex\<lparr>get_timestep_num := 0\<rparr>) < 1" by simp
  show ?thesis
    using get_split_max_secs_in_bounds [of sched_ex ir0]
      get_split_max_secs_in_bounds [of "sched_ex\<lparr>get_timestep_num := 0\<rparr>" ir0]
      a b sched_ex_in_schedule
    by simp
qed

subsection \<open>The split-factor ceiling under merging\<close>

lemma max_secs_ops_append:
  "max_secs_ops M ty (xs @ ys) st =
     (case max_secs_ops M ty xs st of None \<Rightarrow> None | Some st' \<Rightarrow> max_secs_ops M ty ys st')"
  by (induction xs arbitrary: st) (auto split: option.splits)

lemma secs_rel_refl: "ALIGN_4N M \<or> al2 = al \<Longrightarrow> secs_rel M ty [] (mn, mh, al) (mn, mh, al) (mn2, mh2, al2) (mn2, mh2, al2)"
  by (simp add: secs_rel_def)

lemma secs_rel_trans:
  assumes "secs_rel M ty vs a b a2 b2" "secs_rel M ty ws b c b2 c2"
  shows "secs_rel M ty (vs @ ws) a c a2 c2"
proof -
  obtain mn mh al where a: "a = (mn, mh, al)" by (cases a)
  obtain mn' mh' al' where b: "b = (mn', mh', al')" by (cases b)
  obtain mn'' mh'' al'' where c: "c = (mn'', mh'', al'')" by (cases c)
  obtain n2 h2 l2 where a2: "a2 = (n2, h2, l2)" by (cases a2)
  obtain n2' h2' l2' where b2: "b2 = (n2', h2', l2')" by (cases b2)
  obtain n2'' h2'' l2'' where c2: "c2 = (n2'', h2'', l2'')" by (cases c2)
  have 1: "(ALIGN_4N M \<or> l2' = al')" "(n2 \<le> mn \<longrightarrow> n2' \<le> mn')" "(h2 \<le> mh \<longrightarrow> h2' \<le> mh')"
        "n2' \<le> n2" "(\<forall>B. 1 \<le> B \<and> h2 \<le> B \<longrightarrow> h2' \<le> B)"
        "((\<forall>v\<in>set vs. 1 \<le> getH M v ty) \<and> 1 \<le> h2 \<longrightarrow> h2' \<le> h2 \<and> 1 \<le> h2')"
    using assms(1) by (simp_all add: secs_rel_def a b a2 b2)
  have 2: "(ALIGN_4N M \<or> l2'' = al'')" "(n2' \<le> mn' \<longrightarrow> n2'' \<le> mn'')" "(h2' \<le> mh' \<longrightarrow> h2'' \<le> mh'')"
        "n2'' \<le> n2'" "(\<forall>B. 1 \<le> B \<and> h2' \<le> B \<longrightarrow> h2'' \<le> B)"
        "((\<forall>v\<in>set ws. 1 \<le> getH M v ty) \<and> 1 \<le> h2' \<longrightarrow> h2'' \<le> h2' \<and> 1 \<le> h2'')"
    using assms(2) by (simp_all add: secs_rel_def b c b2 c2)
  have "n2 \<le> mn \<longrightarrow> n2'' \<le> mn''" using 1(2) 2(2) by simp
  moreover have "h2 \<le> mh \<longrightarrow> h2'' \<le> mh''" using 1(3) 2(3) by simp
  moreover have "n2'' \<le> n2" using 1(4) 2(4) by simp
  moreover have "\<forall>B. 1 \<le> B \<and> h2 \<le> B \<longrightarrow> h2'' \<le> B" using 1(5) 2(5) by blast
  moreover have "(\<forall>v\<in>set (vs @ ws). 1 \<le> getH M v ty) \<and> 1 \<le> h2 \<longrightarrow> h2'' \<le> h2 \<and> 1 \<le> h2''"
  proof (intro impI)
    assume h: "(\<forall>v\<in>set (vs @ ws). 1 \<le> getH M v ty) \<and> 1 \<le> h2"
    then have "h2' \<le> h2 \<and> 1 \<le> h2'" using 1(6) by simp
    moreover from this h have "h2'' \<le> h2' \<and> 1 \<le> h2''" using 2(6) by simp
    ultimately show "h2'' \<le> h2 \<and> 1 \<le> h2''" by simp
  qed
  ultimately show ?thesis using 2(1) by (simp add: secs_rel_def a c a2 c2)
qed

lemma secs_rel_step:
  assumes "ALIGN_4N M \<or> al2 = al"
    and al'_def: "al' = (if ALIGN_4N M then c_div 32 (getBitWidth M v) else al)"
    and al2'_def: "al2' = (if ALIGN_4N M then c_div 32 (getBitWidth M v) else al2)"
  shows "secs_rel M ty [v] (mn, mh, al)
           (min mn (ceiling_func (getN M v ty) al'), (if AllowDataSplit M opr 2 ty then min mh (getH M v ty) else 1), al')
           (mn2, mh2, al2)
           (min mn2 (ceiling_func (getN M v ty) al2'), (if AllowDataSplit M opr 2 ty then min mh2 (getH M v ty) else 1), al2')"
proof -
  have eq: "al2' = al'" using assms(1) by (auto simp: al'_def al2'_def)
  show ?thesis
  proof (cases "AllowDataSplit M opr 2 ty")
    case True
    then show ?thesis using eq by (simp add: secs_rel_def min_def)
  next
    case False
    then show ?thesis using eq by (simp add: secs_rel_def min_def)
  qed
qed

lemma max_secs_outs_rel:
  assumes "max_secs_outs M ty opr vs st = Some st'"
    and "ALIGN_4N M \<or> snd (snd st2) = snd (snd st)"
  shows "\<exists>st2'. max_secs_outs M ty opr vs st2 = Some st2' \<and> secs_rel M ty vs st st' st2 st2'"
  using assms
proof (induction vs arbitrary: st st2)
  case Nil
  obtain mn mh al where a: "st = (mn, mh, al)" by (cases st)
  obtain n2 h2 l2 where a2: "st2 = (n2, h2, l2)" by (cases st2)
  have "ALIGN_4N M \<or> l2 = al" using Nil.prems(2) by (simp add: a a2)
  from secs_rel_refl[OF this, of ty mn mh n2 h2] show ?case using Nil.prems(1) by (auto simp: a a2)
next
  case (Cons v vs)
  obtain mn mh al where a: "st = (mn, mh, al)" by (cases st)
  obtain mn2 mh2 al2 where a2: "st2 = (mn2, mh2, al2)" by (cases st2)
  let ?al = "if ALIGN_4N M then c_div 32 (getBitWidth M v) else al"
  let ?al2 = "if ALIGN_4N M then c_div 32 (getBitWidth M v) else al2"
  let ?s1 = "(min mn (ceiling_func (getN M v ty) ?al), (if AllowDataSplit M opr 2 ty then min mh (getH M v ty) else 1), ?al)"
  let ?s2 = "(min mn2 (ceiling_func (getN M v ty) ?al2), (if AllowDataSplit M opr 2 ty then min mh2 (getH M v ty) else 1), ?al2)"
  have R: "ALIGN_4N M \<or> al2 = al" using Cons.prems(2) by (simp add: a a2)
  from Cons.prems(1) have ok: "\<not> (ALIGN_4N M \<and> getBitWidth M v = 0)" "?al \<noteq> 0"
    and rest: "max_secs_outs M ty opr vs ?s1 = Some st'"
    by (auto simp: a Let_def split: if_splits)
  have al: "?al2 = ?al" using R by auto
  have R': "ALIGN_4N M \<or> snd (snd ?s2) = snd (snd ?s1)" using al by simp
  from Cons.IH[OF rest R'] obtain st2' where
    r: "max_secs_outs M ty opr vs ?s2 = Some st2'" "secs_rel M ty vs ?s1 st' ?s2 st2'"
    by blast
  have run: "max_secs_outs M ty opr (v # vs) st2 = Some st2'"
    using ok al r(1) by (simp add: a2 Let_def)
  have "secs_rel M ty ([v] @ vs) (mn, mh, al) st' (mn2, mh2, al2) st2'"
    by (rule secs_rel_trans[OF secs_rel_step[OF R refl refl] r(2)])
  then show ?case using run by (simp add: a a2)
qed


lemma max_secs_ops_rel:
  assumes "max_secs_ops M ty ops st = Some st'"
    and "ALIGN_4N M \<or> snd (snd st2) = snd (snd st)"
  shows "\<exists>st2'. max_secs_ops M ty ops st2 = Some st2'
           \<and> secs_rel M ty (concat (map (get_output_values M) ops)) st st' st2 st2'"
  using assms
proof (induction ops arbitrary: st st2)
  case Nil
  obtain mn mh al where a: "st = (mn, mh, al)" by (cases st)
  obtain n2 h2 l2 where a2: "st2 = (n2, h2, l2)" by (cases st2)
  have "ALIGN_4N M \<or> l2 = al" using Nil.prems(2) by (simp add: a a2)
  from secs_rel_refl[OF this, of ty mn mh n2 h2] show ?case using Nil.prems(1) by (auto simp: a a2)
next
  case (Cons opr ops)
  from Cons.prems(1) obtain st1 where
    o: "max_secs_outs M ty opr (get_output_values M opr) st = Some st1"
    and r: "max_secs_ops M ty ops st1 = Some st'"
    by (auto split: option.splits)
  from max_secs_outs_rel[OF o Cons.prems(2)] obtain st3 where
    s: "max_secs_outs M ty opr (get_output_values M opr) st2 = Some st3"
       "secs_rel M ty (get_output_values M opr) st st1 st2 st3"
    by blast
  have R: "ALIGN_4N M \<or> snd (snd st3) = snd (snd st1)"
    using s(2) by (cases st; cases st1; cases st2; cases st3) (simp add: secs_rel_def)
  from Cons.IH[OF r R] obtain st2' where
    t: "max_secs_ops M ty ops st3 = Some st2'"
       "secs_rel M ty (concat (map (get_output_values M) ops)) st1 st' st3 st2'"
    by blast
  have "max_secs_ops M ty (opr # ops) st2 = Some st2'" using s(1) t(1) by simp
  moreover have "secs_rel M ty (concat (map (get_output_values M) (opr # ops))) st st' st2 st2'"
    using secs_rel_trans[OF s(2) t(2)] by simp
  ultimately show ?case by blast
qed


lemma max_secs_outs_align:
  "max_secs_outs M ty opr vs (mn, mh, al) = Some (mn', mh', al') \<Longrightarrow> \<not> ALIGN_4N M \<Longrightarrow> al' = al"
  by (induction vs arbitrary: mn mh al) (auto simp: Let_def split: if_splits)

lemma max_secs_ops_align:
  "max_secs_ops M ty ops (mn, mh, al) = Some (mn', mh', al') \<Longrightarrow> \<not> ALIGN_4N M \<Longrightarrow> al' = al"
proof (induction ops arbitrary: mn mh al)
  case Nil
  then show ?case by simp
next
  case (Cons opr ops)
  from Cons.prems(1) obtain mn1 mh1 al1 where
    o: "max_secs_outs M ty opr (get_output_values M opr) (mn, mh, al) = Some (mn1, mh1, al1)"
    and r: "max_secs_ops M ty ops (mn1, mh1, al1) = Some (mn', mh', al')"
    by (auto split: option.splits)
  from max_secs_outs_align[OF o Cons.prems(2)] Cons.IH[OF r Cons.prems(2)] show ?case by simp
qed

lemma seed_max_nsecs_append:
  assumes "seed_max_nsecs M g1 = Some s1" "group_ops gm = group_ops g1 @ ops2" "type' gm = type' g1"
  shows "seed_max_nsecs M gm = Some s1"
proof -
  obtain op0 ops where g1: "group_ops g1 = op0 # ops"
    using assms(1) by (cases "group_ops g1") (simp_all add: seed_max_nsecs_def)
  then have gm: "group_ops gm = op0 # (ops @ ops2)" using assms(2) by simp
  have "seed_max_nsecs M gm = seed_max_nsecs M g1"
    unfolding seed_max_nsecs_def gm g1 assms(3) by simp
  then show ?thesis using assms(1) by simp
qed

text \<open>
  C8 (as the source has it). Let a group's operations be those of a first group followed by
  those of a second, all of one group type, and let the output tensors of the first group
  have height at least 1. When \<^verbatim>\<open>get_group_max_secs\<close> gives both groups a ceiling it
  gives the merged group one, whose h-ceiling is no greater than either group's and whose
  n-ceiling is no greater than the first group's; it is no greater than the second group's
  n-ceiling too when the batch extent that seeds the second group (operand 0 of its first
  operation, or the larger of operands 0 and 1 of a binary first operation) is not smaller
  than the one that seeds the first group.
\<close>

theorem get_group_max_secs_merge:
  assumes ops: "group_ops gm = group_ops g1 @ group_ops g2"
    and ty: "type' gm = type' g1" "type' g2 = type' g1"
    and c1: "get_group_max_secs M g1 = Some c1"
    and c2: "get_group_max_secs M g2 = Some c2"
    and hs: "\<forall>opr\<in>set (group_ops g1). \<forall>v\<in>set (get_output_values M opr). 1 \<le> getH M v (type' g1)"
  shows "\<exists>cm. get_group_max_secs M gm = Some cm
           \<and> nsecs cm \<le> nsecs c1 \<and> hsecs cm \<le> hsecs c1 \<and> hsecs cm \<le> hsecs c2
           \<and> (\<forall>s1 s2. seed_max_nsecs M g1 = Some s1 \<and> seed_max_nsecs M g2 = Some s2 \<and> s1 \<le> s2
                 \<longrightarrow> nsecs cm \<le> nsecs c2)"
proof -
  let ?ty = "type' g1"
  from c1 obtain s1 n1 h1 a1 where
    s1: "seed_max_nsecs M g1 = Some s1"
    and r1: "max_secs_ops M ?ty (group_ops g1) (s1, maxIntN64, 1) = Some (n1, h1, a1)"
    and c1': "c1 = \<lparr>nsecs = n1, hsecs = h1\<rparr>"
    by (auto simp: get_group_max_secs_def split: option.splits)
  from c2 obtain s2 n2 h2 a2 where
    s2: "seed_max_nsecs M g2 = Some s2"
    and r2: "max_secs_ops M ?ty (group_ops g2) (s2, maxIntN64, 1) = Some (n2, h2, a2)"
    and c2': "c2 = \<lparr>nsecs = n2, hsecs = h2\<rparr>"
    by (auto simp: get_group_max_secs_def ty split: option.splits)
  have one: "(1::int) \<le> maxIntN64" by (simp add: maxIntN64_def)
  have "ALIGN_4N M \<or> snd (snd (s1, maxIntN64, 1::int)) = snd (snd (s1, maxIntN64, 1::int))" by simp
  from max_secs_ops_rel[OF r1 this] r1
  have rel1: "secs_rel M ?ty (concat (map (get_output_values M) (group_ops g1)))
                (s1, maxIntN64, 1) (n1, h1, a1) (s1, maxIntN64, 1) (n1, h1, a1)"
    by auto
  have n1: "n1 \<le> s1" using rel1 by (simp add: secs_rel_def)
  have h1: "1 \<le> h1" "h1 \<le> maxIntN64" using rel1 hs one by (auto simp: secs_rel_def)
  have a1: "ALIGN_4N M \<or> a1 = 1" using max_secs_ops_align[OF r1] by auto
  have "ALIGN_4N M \<or> snd (snd (n1, h1, a1)) = snd (snd (s2, maxIntN64, 1::int))" using a1 by simp
  from max_secs_ops_rel[OF r2 this] obtain nm hm am where
    rm: "max_secs_ops M ?ty (group_ops g2) (n1, h1, a1) = Some (nm, hm, am)"
    and rel2: "secs_rel M ?ty (concat (map (get_output_values M) (group_ops g2)))
                (s2, maxIntN64, 1) (n2, h2, a2) (n1, h1, a1) (nm, hm, am)"
    by (metis prod_cases3)
  have nm: "nm \<le> n1" "n1 \<le> s2 \<longrightarrow> nm \<le> n2" using rel2 by (simp_all add: secs_rel_def)
  have hm: "hm \<le> h2" "hm \<le> h1" using rel2 h1 by (auto simp: secs_rel_def)
  have seed: "seed_max_nsecs M gm = Some s1" by (rule seed_max_nsecs_append[OF s1 ops ty(1)])
  have "max_secs_ops M ?ty (group_ops gm) (s1, maxIntN64, 1) = Some (nm, hm, am)"
    using r1 rm by (simp add: ops max_secs_ops_append)
  then have cm: "get_group_max_secs M gm = Some \<lparr>nsecs = nm, hsecs = hm\<rparr>"
    using seed by (simp add: get_group_max_secs_def ty)
  have "\<forall>t1 t2. seed_max_nsecs M g1 = Some t1 \<and> seed_max_nsecs M g2 = Some t2 \<and> t1 \<le> t2
          \<longrightarrow> nm \<le> n2"
    using s1 s2 n1 nm(2) by auto
  then show ?thesis using cm nm(1) hm by (simp add: c1' c2')
qed

lemma merge_example_values:
  "get_group_max_secs merge_ir group_a = Some \<lparr>nsecs = 4, hsecs = 8\<rparr>"
  "get_group_max_secs merge_ir group_b = Some \<lparr>nsecs = 1, hsecs = 8\<rparr>"
  "get_group_max_secs merge_ir group_ab = Some \<lparr>nsecs = 4, hsecs = 8\<rparr>"
  "get_group_max_secs merge_ir group_c = Some \<lparr>nsecs = 4, hsecs = 8\<rparr>"
  "get_group_max_secs merge_ir group_abc = Some \<lparr>nsecs = 4, hsecs = 8\<rparr>"
  by (simp_all add: get_group_max_secs_def seed_max_nsecs_def merge_ir_def ir0_def group_a_def
      group_b_def group_c_def group_ab_def group_abc_def get_output_values_def ceiling_func_def
      maxIntN64_def)

lemma merge_example_seeds:
  "seed_max_nsecs merge_ir group_ab = Some 4" "seed_max_nsecs merge_ir group_c = Some 4"
  by (simp_all add: seed_max_nsecs_def merge_ir_def ir0_def group_ab_def group_c_def)

theorem get_group_max_secs_merge_witness:
  "get_group_max_secs merge_ir group_ab = Some \<lparr>nsecs = 4, hsecs = 8\<rparr>
   \<and> get_group_max_secs merge_ir group_c = Some \<lparr>nsecs = 4, hsecs = 8\<rparr>
   \<and> seed_max_nsecs merge_ir group_ab = Some 4 \<and> seed_max_nsecs merge_ir group_c = Some 4
   \<and> (\<exists>cm. get_group_max_secs merge_ir group_abc = Some cm \<and> nsecs cm \<le> 4 \<and> hsecs cm \<le> 8)"
proof -
  have o: "group_ops group_abc = group_ops group_ab @ group_ops group_c"
    by (simp add: group_abc_def group_ab_def group_c_def)
  have t: "type' group_abc = type' group_ab" "type' group_c = type' group_ab"
    by (simp_all add: group_abc_def group_ab_def group_c_def)
  have h: "\<forall>opr\<in>set (group_ops group_ab). \<forall>v\<in>set (get_output_values merge_ir opr).
             1 \<le> getH merge_ir v (type' group_ab)"
    by (simp add: merge_ir_def ir0_def)
  show ?thesis
    using get_group_max_secs_merge [OF o t merge_example_values(3) merge_example_values(4) h]
      merge_example_values merge_example_seeds
    by auto
qed

text \<open>
  C8 as stated fails: the second group's n-ceiling is 1, because operand 0 of its first
  operation has batch extent 1, while the merged group is seeded by the first group's
  operand and gets the n-ceiling 4, above the minimum of 4 and 1.
\<close>

theorem get_group_max_secs_merge_raises:
  "group_ops group_ab = group_ops group_a @ group_ops group_b
   \<and> get_group_max_secs merge_ir group_a = Some \<lparr>nsecs = 4, hsecs = 8\<rparr>
   \<and> get_group_max_secs merge_ir group_b = Some \<lparr>nsecs = 1, hsecs = 8\<rparr>
   \<and> get_group_max_secs merge_ir group_ab = Some \<lparr>nsecs = 4, hsecs = 8\<rparr>"
  using merge_example_values by (simp add: group_ab_def group_a_def group_b_def)

subsection \<open>Backward propagation\<close>

lemma same_slices_eq: "length xs = length ys \<Longrightarrow> same_slices xs ys \<longleftrightarrow> xs = ys"
  by (induction xs ys rule: list_induct2) (auto simp: is_same_slice_def prod_eq_iff)

lemma is_same_slice_info_eq:
  "is_same_slice_info si0 si1 \<longleftrightarrow> si_n si0 = si_n si1 \<and> si_h si0 = si_h si1"
  by (auto simp: is_same_slice_info_def same_slices_eq)

lemma users_loop_None:
  "users_loop lg S us b = None \<longleftrightarrow> (\<exists>u\<in>set us. u \<in> set (group_ops lg) \<and> count S u = 0)"
  by (induction us arbitrary: b) (auto simp: count_eq_zero_iff)

lemma users_loop_Some:
  "users_loop lg S us b = Some h \<Longrightarrow> h = (b \<or> (\<exists>u\<in>set us. u \<notin> set (group_ops lg)))"
  by (induction us arbitrary: b) (auto split: if_splits)

lemma strip_back_judge_iff:
  "strip_back_judge M v lg S outs \<longleftrightarrow>
     (\<forall>u\<in>set (getUsers M v). u \<in> set (group_ops lg) \<longrightarrow> u \<in># S)
     \<and> ((\<exists>u\<in>set (getUsers M v). u \<notin> set (group_ops lg)) \<longrightarrow> v \<in> outs)"
proof (cases "users_loop lg S (getUsers M v) False")
  case None
  then show ?thesis
    using users_loop_None[of lg S "getUsers M v" False]
    by (auto simp: strip_back_judge_def not_in_iff)
next
  case (Some h)
  then have "\<not> (\<exists>u\<in>set (getUsers M v). u \<in> set (group_ops lg) \<and> count S u = 0)"
    using users_loop_None[of lg S "getUsers M v" False] by simp
  then have a: "\<forall>u\<in>set (getUsers M v). u \<in> set (group_ops lg) \<longrightarrow> u \<in># S"
    by (auto simp: not_in_iff)
  have "h = (\<exists>u\<in>set (getUsers M v). u \<notin> set (group_ops lg))"
    using users_loop_Some[OF Some] by simp
  then show ?thesis using a Some by (simp add: strip_back_judge_def)
qed

lemma push_if_judged_simps [simp]:
  "tensor_infos (push_if_judged M lg outs v st) = tensor_infos st"
  "op_set (push_if_judged M lg outs v st) = op_set st"
  "set (tensor_branchs (push_if_judged M lg outs v st)) =
     (if strip_back_judge M v lg (op_set st) outs then insert v (set (tensor_branchs st))
      else set (tensor_branchs st))"
  by (simp_all add: push_if_judged_def)

text \<open>The operand loop keeps the visited operations and every record the map already has.\<close>

lemma operand_step_keeps:
  assumes "operand_step M lg ss opr out_si outs v st = Some st'"
  shows "op_set st' = op_set st"
    and "tensor_infos st w = Some ti \<Longrightarrow> tensor_infos st' w = Some ti"
    and "set (tensor_branchs st) \<subseteq> set (tensor_branchs st')"
    and "dom (tensor_infos st') \<subseteq> insert v (dom (tensor_infos st))"
  using assms
  by (auto simp: operand_step_def split: if_splits option.splits)

lemma operands_loop_keeps:
  assumes "operands_loop M lg ss opr out_si outs vs st = (ret, st')"
  shows "op_set st' = op_set st
       \<and> (\<forall>w ti. tensor_infos st w = Some ti \<longrightarrow> tensor_infos st' w = Some ti)
       \<and> set (tensor_branchs st) \<subseteq> set (tensor_branchs st')"
  using assms
proof (induction vs arbitrary: st)
  case Nil
  then show ?case by simp
next
  case (Cons v vs)
  show ?case
  proof (cases "operand_step M lg ss opr out_si outs v st")
    case None
    then show ?thesis using Cons.prems by simp
  next
    case (Some st1)
    then have "operands_loop M lg ss opr out_si outs vs st1 = (ret, st')"
      using Cons.prems by simp
    from Cons.IH[OF this]
    have IH: "op_set st' = op_set st1"
      "\<forall>w ti. tensor_infos st1 w = Some ti \<longrightarrow> tensor_infos st' w = Some ti"
      "set (tensor_branchs st1) \<subseteq> set (tensor_branchs st')"
      by simp_all
    have k: "op_set st1 = op_set st"
      "\<forall>w ti. tensor_infos st w = Some ti \<longrightarrow> tensor_infos st1 w = Some ti"
      "set (tensor_branchs st) \<subseteq> set (tensor_branchs st1)"
      using operand_step_keeps[OF Some] by simp_all
    show ?thesis using IH k by auto
  qed
qed

lemma backward_update_slice_keeps:
  assumes "backward_update_slice M lg ss out outs st = Some (ret, st')"
  shows "op_set st \<subseteq># op_set st'
       \<and> (\<forall>w ti. tensor_infos st w = Some ti \<longrightarrow> tensor_infos st' w = Some ti)
       \<and> set (tensor_branchs st) \<subseteq> set (tensor_branchs st')"
proof (cases "out \<in> set (group_ins lg)")
  case True
  then show ?thesis using assms by (simp add: backward_update_slice_def)
next
  case False
  then obtain opr where d: "getDefiningOp M out = Some opr"
    using assms by (auto simp: backward_update_slice_def split: option.splits)
  let ?st1 = "st\<lparr>op_set := add_mset opr (op_set st)\<rparr>"
  let ?st2 = "(case tensor_infos ?st1 out of
                 None \<Rightarrow> ?st1\<lparr>tensor_infos := (tensor_infos ?st1)(out \<mapsto> default_tensor_info)\<rparr>
               | Some ti \<Rightarrow> ?st1)"
  let ?si = "(case tensor_infos ?st1 out of None \<Rightarrow> slice_info default_tensor_info | Some ti \<Rightarrow> slice_info ti)"
  have run: "operands_loop M lg ss opr ?si outs (getOperands M opr) ?st2 = (ret, st')"
    using assms False d by (simp add: backward_update_slice_def Let_def)
  have a: "op_set ?st2 = add_mset opr (op_set st)" by (simp split: option.splits)
  have b: "\<forall>w ti. tensor_infos st w = Some ti \<longrightarrow> tensor_infos ?st2 w = Some ti"
    by (auto split: option.splits)
  have c: "tensor_branchs ?st2 = tensor_branchs st" by (simp split: option.splits)
  from operands_loop_keeps[OF run] a b c show ?thesis by auto
qed

text \<open>Induction over the worklist loop: invariants of every step, and of the successful steps.\<close>

lemma worklist_loop_invariant:
  assumes run: "worklist_loop M lg ss outs st = Some (ret, st')"
    and init: "I st"
    and step: "\<And>s out rest r s'. I s \<Longrightarrow> tensor_branchs s = out # rest \<Longrightarrow>
           backward_update_slice M lg ss out outs (s\<lparr>tensor_branchs := rest\<rparr>) = Some (r, s') \<Longrightarrow> I s'"
  shows "I st'"
proof -
  have "M' = M \<and> lg' = lg \<and> ss' = ss \<and> outs' = outs \<longrightarrow> I s0 \<longrightarrow> I (snd y)"
    if "worklist_loop M' lg' ss' outs' s0 = Some y" for M' lg' ss' outs' s0 y
  proof (rule worklist_loop.raw_induct
      [where P = "\<lambda>M' lg' ss' outs' s0 y. M' = M \<and> lg' = lg \<and> ss' = ss \<and> outs' = outs \<longrightarrow> I s0 \<longrightarrow> I (snd y)",
       OF _ that])
    fix wl M' lg' ss' outs' s0 y
    assume IH: "\<And>M' lg' ss' outs' s0 y. wl M' lg' ss' outs' s0 = Some y \<Longrightarrow>
                  M' = M \<and> lg' = lg \<and> ss' = ss \<and> outs' = outs \<longrightarrow> I s0 \<longrightarrow> I (snd y)"
      and body: "(case tensor_branchs s0 of
                    [] \<Rightarrow> Some (True, s0)
                  | out_tensor # rest \<Rightarrow>
                      (case backward_update_slice M' lg' ss' out_tensor outs' (s0\<lparr>tensor_branchs := rest\<rparr>) of
                         None \<Rightarrow> None
                       | Some (ret, st') \<Rightarrow> if \<not> ret then Some (False, st') else wl M' lg' ss' outs' st')) = Some y"
    show "M' = M \<and> lg' = lg \<and> ss' = ss \<and> outs' = outs \<longrightarrow> I s0 \<longrightarrow> I (snd y)"
    proof (intro impI)
      assume eq: "M' = M \<and> lg' = lg \<and> ss' = ss \<and> outs' = outs" and I0: "I s0"
      show "I (snd y)"
      proof (cases "tensor_branchs s0")
        case Nil
        then show ?thesis using body I0 by auto
      next
        case (Cons out rest)
        then obtain r s' where
          b: "backward_update_slice M lg ss out outs (s0\<lparr>tensor_branchs := rest\<rparr>) = Some (r, s')"
          using body eq by (auto split: option.splits)
        have I': "I s'" using step[OF I0 Cons b] .
        show ?thesis
        proof (cases r)
          case True
          then have "wl M lg ss outs s' = Some y" using body Cons b eq by simp
          from IH[OF this] I' show ?thesis by simp
        next
          case False
          then have "y = (False, s')" using body Cons b eq by simp
          then show ?thesis using I' by simp
        qed
      qed
    qed
  qed
  from this[OF run] init show ?thesis by simp
qed

lemma worklist_loop_success:
  assumes run: "worklist_loop M lg ss outs st = Some (True, st')"
    and init: "I st"
    and step: "\<And>s out rest s'. I s \<Longrightarrow> tensor_branchs s = out # rest \<Longrightarrow>
           backward_update_slice M lg ss out outs (s\<lparr>tensor_branchs := rest\<rparr>) = Some (True, s') \<Longrightarrow> I s'"
  shows "I st' \<and> tensor_branchs st' = []"
proof -
  have "M' = M \<and> lg' = lg \<and> ss' = ss \<and> outs' = outs \<longrightarrow> I s0 \<longrightarrow> fst y
          \<longrightarrow> I (snd y) \<and> tensor_branchs (snd y) = []"
    if "worklist_loop M' lg' ss' outs' s0 = Some y" for M' lg' ss' outs' s0 y
  proof (rule worklist_loop.raw_induct
      [where P = "\<lambda>M' lg' ss' outs' s0 y. M' = M \<and> lg' = lg \<and> ss' = ss \<and> outs' = outs \<longrightarrow> I s0
                     \<longrightarrow> fst y \<longrightarrow> I (snd y) \<and> tensor_branchs (snd y) = []",
       OF _ that])
    fix wl M' lg' ss' outs' s0 y
    assume IH: "\<And>M' lg' ss' outs' s0 y. wl M' lg' ss' outs' s0 = Some y \<Longrightarrow>
                  M' = M \<and> lg' = lg \<and> ss' = ss \<and> outs' = outs \<longrightarrow> I s0
                     \<longrightarrow> fst y \<longrightarrow> I (snd y) \<and> tensor_branchs (snd y) = []"
      and body: "(case tensor_branchs s0 of
                    [] \<Rightarrow> Some (True, s0)
                  | out_tensor # rest \<Rightarrow>
                      (case backward_update_slice M' lg' ss' out_tensor outs' (s0\<lparr>tensor_branchs := rest\<rparr>) of
                         None \<Rightarrow> None
                       | Some (ret, st') \<Rightarrow> if \<not> ret then Some (False, st') else wl M' lg' ss' outs' st')) = Some y"
    show "M' = M \<and> lg' = lg \<and> ss' = ss \<and> outs' = outs \<longrightarrow> I s0
            \<longrightarrow> fst y \<longrightarrow> I (snd y) \<and> tensor_branchs (snd y) = []"
    proof (intro impI)
      assume eq: "M' = M \<and> lg' = lg \<and> ss' = ss \<and> outs' = outs" and I0: "I s0" and ok: "fst y"
      show "I (snd y) \<and> tensor_branchs (snd y) = []"
      proof (cases "tensor_branchs s0")
        case Nil
        then show ?thesis using body I0 by auto
      next
        case (Cons out rest)
        then obtain r s' where
          b: "backward_update_slice M lg ss out outs (s0\<lparr>tensor_branchs := rest\<rparr>) = Some (r, s')"
          using body eq by (auto split: option.splits)
        show ?thesis
        proof (cases r)
          case True
          have I': "I s'" using step[OF I0 Cons] b True by simp
          have "wl M lg ss outs s' = Some y" using body Cons b eq True by simp
          from IH[OF this] I' ok show ?thesis by simp
        next
          case False
          then have "y = (False, s')" using body Cons b eq by simp
          then show ?thesis using ok by simp
        qed
      qed
    qed
  qed
  from this[OF run] init show ?thesis by simp
qed

lemma worklist_loop_keeps:
  assumes "worklist_loop M lg ss outs st = Some (ret, st')" "tensor_infos st w = Some ti"
  shows "tensor_infos st' w = Some ti"
proof -
  have "tensor_infos st' w = Some ti"
  proof (rule worklist_loop_invariant[OF assms(1), where I = "\<lambda>s. tensor_infos s w = Some ti"])
    show "tensor_infos st w = Some ti" by (rule assms(2))
  next
    fix s out rest r s'
    assume "tensor_infos s w = Some ti"
      and "backward_update_slice M lg ss out outs (s\<lparr>tensor_branchs := rest\<rparr>) = Some (r, s')"
    then show "tensor_infos s' w = Some ti"
      using backward_update_slice_keeps[of M lg ss out outs "s\<lparr>tensor_branchs := rest\<rparr>" r s'] by simp
  qed
  then show ?thesis .
qed

lemma idx_seed_loop_result:
  assumes "idx_seed_loop M lg ss outs (st, S) = (st', S')"
  shows "(\<forall>out\<in>set outs. tensor_infos st' out =
            Some (tensor_info_of (get_out_slice_info ss (getN M out (type' lg)) (getH M out (type' lg)))))
       \<and> (\<forall>w. w \<notin> set outs \<longrightarrow> tensor_infos st' w = tensor_infos st w)
       \<and> S' = S \<union> set outs \<and> op_set st' = op_set st"
  using assms
proof (induction outs arbitrary: st S)
  case Nil
  then show ?case by simp
next
  case (Cons out outs)
  let ?si = "get_out_slice_info ss (getN M out (type' lg)) (getH M out (type' lg))"
  let ?st1 = "st\<lparr>tensor_infos := (tensor_infos st)(out \<mapsto> tensor_info_of ?si)\<rparr>"
  let ?st2 = "push_if_judged M lg (insert out S) out ?st1"
  have run: "idx_seed_loop M lg ss outs (?st2, insert out S) = (st', S')"
    using Cons.prems by (simp add: Let_def)
  from Cons.IH[OF run]
  have IH: "\<forall>w\<in>set outs. tensor_infos st' w =
              Some (tensor_info_of (get_out_slice_info ss (getN M w (type' lg)) (getH M w (type' lg))))"
    "\<forall>w. w \<notin> set outs \<longrightarrow> tensor_infos st' w = tensor_infos ?st2 w"
    "S' = insert out S \<union> set outs" "op_set st' = op_set ?st2"
    by simp_all
  have "tensor_infos st' out = Some (tensor_info_of ?si)"
  proof (cases "out \<in> set outs")
    case True
    then show ?thesis using IH(1) by simp
  next
    case False
    then show ?thesis using IH(2) by simp
  qed
  moreover have "\<forall>w. w \<notin> set (out # outs) \<longrightarrow> tensor_infos st' w = tensor_infos st w"
    using IH(2) by simp
  ultimately show ?case using IH(1,3,4) by auto
qed

lemma balanced_partition_sum:
  "balanced_partition e s ps \<Longrightarrow> sum_list (map snd ps) = e"
  using chain_sum[of 0 e ps] by (simp add: balanced_partition_def)










lemmas propagation_defs = stripe_mine_idx_slice_def idx_seed_loop.simps empty_state_def
  push_if_judged_def strip_back_judge_def backward_update_slice_def operand_step_def
  is_weight_or_none_def get_backward_slice_info_def backward_n_def backward_h_def
  is_broadcast_binary_def get_out_slice_info_def out_slices_def out_slice_def c_div_def
  c_mod_def tensor_info_of_def default_tensor_info_def is_same_slice_info_def
  is_same_slice_def Let_def upt_conv_Cons


subsection \<open>The split-search driver\<close>

lemma ceiling_func_pos: "1 \<le> a \<Longrightarrow> 1 \<le> b \<Longrightarrow> 1 \<le> ceiling_func a b"
proof -
  assume a: "1 \<le> a" and b: "1 \<le> b"
  have "(- a) div b < 0" using a b by (simp add: pos_imp_zdiv_neg_iff)
  then show ?thesis by (simp add: ceiling_func_def)
qed

lemma split_step_facts:
  assumes "split_step M lg mx nsec ss ts = Some (ex, ss', ts', pts)"
  shows "(propagation_fails M lg (ss\<lparr>nsecs := nsec\<rparr>) \<longleftrightarrow> ex = Return_false)"
    and "ex = Return_false \<Longrightarrow> ss' = ss\<lparr>nsecs := nsec\<rparr>"
    and "1 \<le> nsec \<Longrightarrow> \<forall>p\<in>set pts. 1 \<le> nsecs p"
    and "1 \<le> nsec \<Longrightarrow> 1 \<le> hsecs ss \<Longrightarrow> demand_positive M lg \<Longrightarrow> \<forall>p\<in>set pts. 1 \<le> hsecs p"
    and "pts \<noteq> [] \<and> ss' = last pts"
proof -
  let ?ss1 = "ss\<lparr>nsecs := nsec\<rparr>"
  obtain ret infos where p: "stripe_mine_max_slice M lg ?ss1 Map.empty = Some (ret, infos)"
    using assms by (auto simp: split_step_def Let_def split: option.splits)
  let ?ts2 = "ts\<lparr>get_tensor_infos := infos\<rparr>"
  show "(propagation_fails M lg ?ss1 \<longleftrightarrow> ex = Return_false)"
    using assms p by (auto simp: split_step_def propagation_fails_def Let_def split: option.splits if_splits)
  show "ex = Return_false \<Longrightarrow> ss' = ?ss1"
    using assms p by (auto simp: split_step_def Let_def split: option.splits if_splits)
  show "pts \<noteq> [] \<and> ss' = last pts"
    using assms p by (auto simp: split_step_def Let_def split: option.splits if_splits)
  show "1 \<le> nsec \<Longrightarrow> \<forall>p\<in>set pts. 1 \<le> nsecs p"
    using assms p by (auto simp: split_step_def Let_def split: option.splits if_splits)
  show "\<forall>p\<in>set pts. 1 \<le> hsecs p"
    if n: "1 \<le> nsec" and h: "1 \<le> hsecs ss" and d: "demand_positive M lg"
  proof (cases ret)
    case False
    then show ?thesis using assms p h by (auto simp: split_step_def Let_def)
  next
    case True
    let ?ts3 = "update_all_mem_buffer_size M lg ?ts2"
    obtain total where t: "get_split_max_secs M ?ts3 = Some total"
      using assms p True by (auto simp: split_step_def Let_def split: option.splits)
    have t1: "1 \<le> total" using d t by (auto simp: demand_positive_def)
    let ?n2 = "max nsec (min (nsecs mx) total)"
    have n2: "1 \<le> ?n2" using n by simp
    have "1 \<le> ceiling_func total ?n2" by (rule ceiling_func_pos[OF t1 n2])
    moreover have "pts = [?ss1, ?ss1\<lparr>nsecs := ?n2\<rparr>, ?ss1\<lparr>nsecs := ?n2, hsecs := ceiling_func total ?n2\<rparr>]"
      using assms p True t n2 by (auto simp: split_step_def Let_def split: if_splits)
    ultimately show ?thesis using h by simp
  qed
qed

lemma update_data_split_loop_trace:
  assumes "update_data_split_loop M lg mx nsec ss ts hist tried = Some (ex, ss', ts', hist', tried')"
  shows "\<exists>pts new. hist' = hist @ pts \<and> tried' = tried @ new
           \<and> map nsecs new = map (\<lambda>i. nsec + int i) [0..<length new]
           \<and> (1 \<le> nsec \<longrightarrow> (\<forall>p\<in>set pts. 1 \<le> nsecs p))
           \<and> (1 \<le> nsec \<and> 1 \<le> hsecs ss \<and> demand_positive M lg \<longrightarrow> (\<forall>p\<in>set pts. 1 \<le> hsecs p))
           \<and> (\<forall>c\<in>set new. propagation_fails M lg c \<longrightarrow> ex = Return_false \<and> ss' = c \<and> c = last new)"
  using assms
proof (induction M lg mx nsec ss ts hist tried rule: update_data_split_loop.induct)
  case (1 M lg mx nsec ss ts hist tried)
  show ?case
  proof (cases "nsec \<le> nsecs mx")
    case False
    then have "hist' = hist" "tried' = tried"
      using "1.prems" by (simp_all add: update_data_split_loop.simps)
    then show ?thesis by simp
  next
    case True
    let ?c = "ss\<lparr>nsecs := nsec\<rparr>"
    obtain ex1 ss1 ts1 pts1 where s: "split_step M lg mx nsec ss ts = Some (ex1, ss1, ts1, pts1)"
      using "1.prems" True
      by (subst (asm) update_data_split_loop.simps) (auto split: option.splits)
    note f = split_step_facts[OF s]
    show ?thesis
    proof (cases "ex1 = Continue")
      case False
      then have r: "ex = ex1" "ss' = ss1" "hist' = hist @ pts1" "tried' = tried @ [?c]"
        using "1.prems" True s by (simp_all add: update_data_split_loop.simps)
      have "map nsecs [?c] = map (\<lambda>i. nsec + int i) [0..<length [?c]]" by simp
      moreover have "\<forall>c\<in>set [?c]. propagation_fails M lg c \<longrightarrow> ex = Return_false \<and> ss' = c \<and> c = last [?c]"
        using f(1,2) r by simp
      ultimately show ?thesis using r f(3,4) by blast
    next
      case C: True
      have run: "update_data_split_loop M lg mx (nsec + 1) ss1 ts1 (hist @ pts1) (tried @ [?c])
                 = Some (ex, ss', ts', hist', tried')"
        using "1.prems" True s C by (simp add: update_data_split_loop.simps)
      from "1.IH"[OF True s refl refl refl C run] obtain pts new where
        IH: "hist' = (hist @ pts1) @ pts" "tried' = (tried @ [?c]) @ new"
            "map nsecs new = map (\<lambda>i. nsec + 1 + int i) [0..<length new]"
            "1 \<le> nsec + 1 \<longrightarrow> (\<forall>p\<in>set pts. 1 \<le> nsecs p)"
            "1 \<le> nsec + 1 \<and> 1 \<le> hsecs ss1 \<and> demand_positive M lg \<longrightarrow> (\<forall>p\<in>set pts. 1 \<le> hsecs p)"
            "\<forall>c\<in>set new. propagation_fails M lg c \<longrightarrow> ex = Return_false \<and> ss' = c \<and> c = last new"
        by blast
      have nofail: "\<not> propagation_fails M lg ?c" using f(1) C by simp
      have a: "hist' = hist @ (pts1 @ pts)" "tried' = tried @ (?c # new)" using IH(1,2) by simp_all
      have b: "map nsecs (?c # new) = map (\<lambda>i. nsec + int i) [0..<length (?c # new)]"
      proof -
        have "[0..<length (?c # new)] = 0 # map Suc [0..<length new]"
          by (simp add: upt_conv_Cons map_Suc_upt del: upt_Suc)
        then show ?thesis using IH(3) by (simp add: comp_def add.assoc)
      qed
      have c: "1 \<le> nsec \<longrightarrow> (\<forall>p\<in>set (pts1 @ pts). 1 \<le> nsecs p)" using f(3) IH(4) by auto
      have d: "1 \<le> nsec \<and> 1 \<le> hsecs ss \<and> demand_positive M lg \<longrightarrow> (\<forall>p\<in>set (pts1 @ pts). 1 \<le> hsecs p)"
      proof (intro impI)
        assume h: "1 \<le> nsec \<and> 1 \<le> hsecs ss \<and> demand_positive M lg"
        then have p1: "\<forall>p\<in>set pts1. 1 \<le> hsecs p" using f(4) by simp
        then have "1 \<le> hsecs ss1" using f(5) by (metis last_in_set)
        then have "\<forall>p\<in>set pts. 1 \<le> hsecs p" using IH(5) h by simp
        then show "\<forall>p\<in>set (pts1 @ pts). 1 \<le> hsecs p" using p1 by auto
      qed
      have e: "\<forall>c\<in>set (?c # new). propagation_fails M lg c \<longrightarrow> ex = Return_false \<and> ss' = c \<and> c = last (?c # new)"
      proof (intro ballI impI)
        fix c assume c: "c \<in> set (?c # new)" and fl: "propagation_fails M lg c"
        then have "c \<in> set new" using nofail by auto
        then show "ex = Return_false \<and> ss' = c \<and> c = last (?c # new)"
          using IH(6) fl by auto
      qed
      show ?thesis using a b c d e by blast
    qed
  qed
qed


lemma update_data_split_trace:
  assumes "update_data_split M time_step lg = Some (status, ss, ts, hist, tried)"
  shows "map nsecs tried = map (\<lambda>i. 1 + int i) [0..<length tried]"
    and "\<forall>p\<in>set hist. 1 \<le> nsecs p"
    and "demand_positive M lg \<Longrightarrow> \<forall>p\<in>set hist. 1 \<le> hsecs p"
    and "\<forall>c\<in>set tried. propagation_fails M lg c \<longrightarrow> \<not> status \<and> ss = c \<and> c = last tried"
proof -
  obtain mx where mx: "get_group_max_secs M lg = Some mx"
    using assms by (auto simp: update_data_split_def Let_def split: option.splits)
  let ?s0 = "\<lparr>nsecs = 1, hsecs = 1\<rparr>"
  obtain ex ts0 where
    run: "update_data_split_loop M lg mx 1 ?s0 time_step [?s0] [] = Some (ex, ss, ts0, hist, tried)"
    and st: "status = (ex = Break)"
    using assms mx by (auto simp: update_data_split_def Let_def split: option.splits if_splits)
  from update_data_split_loop_trace[OF run] obtain pts where
    t: "hist = [?s0] @ pts"
       "map nsecs tried = map (\<lambda>i. 1 + int i) [0..<length tried]"
       "\<forall>p\<in>set pts. 1 \<le> nsecs p"
       "demand_positive M lg \<longrightarrow> (\<forall>p\<in>set pts. 1 \<le> hsecs p)"
       "\<forall>c\<in>set tried. propagation_fails M lg c \<longrightarrow> ex = Return_false \<and> ss = c \<and> c = last tried"
    by auto
  show "map nsecs tried = map (\<lambda>i. 1 + int i) [0..<length tried]" by (rule t(2))
  show "\<forall>p\<in>set hist. 1 \<le> nsecs p" using t(1,3) by simp
  show "\<forall>p\<in>set hist. 1 \<le> hsecs p" if "demand_positive M lg" using t(1,4) that by simp
  show "\<forall>c\<in>set tried. propagation_fails M lg c \<longrightarrow> \<not> status \<and> ss = c \<and> c = last tried"
    using t(5) st by auto
qed

lemma increasing_candidates:
  assumes "map nsecs tried = map (\<lambda>i. 1 + int i) [0..<length tried]"
  shows "\<forall>i. Suc i < length tried \<longrightarrow> nsecs (tried ! Suc i) = nsecs (tried ! i) + 1"
    and "tried \<noteq> [] \<Longrightarrow> nsecs (tried ! 0) = 1"
    and "\<forall>c\<in>set tried. nsecs c \<le> int (length tried)"
    and "tried \<noteq> [] \<Longrightarrow> nsecs (last tried) = int (length tried)"
proof -
  have nth: "nsecs (tried ! i) = 1 + int i" if "i < length tried" for i
  proof -
    have "map nsecs tried ! i = map (\<lambda>i. 1 + int i) [0..<length tried] ! i" using assms by simp
    then show ?thesis using that by simp
  qed
  show "\<forall>i. Suc i < length tried \<longrightarrow> nsecs (tried ! Suc i) = nsecs (tried ! i) + 1"
    using nth by simp
  show "nsecs (tried ! 0) = 1" if "tried \<noteq> []" using nth[of 0] that by simp
  show "\<forall>c\<in>set tried. nsecs c \<le> int (length tried)"
  proof
    fix c assume "c \<in> set tried"
    then obtain i where "i < length tried" "tried ! i = c" by (auto simp: in_set_conv_nth)
    then show "nsecs c \<le> int (length tried)" using nth[of i] by auto
  qed
  show "nsecs (last tried) = int (length tried)" if ne: "tried \<noteq> []"
  proof -
    obtain k where k: "length tried = Suc k" using ne by (cases tried) simp_all
    show ?thesis using nth[of k] ne k by (simp add: last_conv_nth)
  qed
qed

lemma split_step_fails:
  assumes "propagation_fails M lg (shape_secs\<lparr>nsecs := nsec\<rparr>)"
  shows "\<exists>ts'. split_step M lg mx nsec shape_secs time_step =
           Some (Return_false, shape_secs\<lparr>nsecs := nsec\<rparr>, ts', [shape_secs\<lparr>nsecs := nsec\<rparr>])"
proof -
  from assms obtain infos where
    "stripe_mine_max_slice M lg (shape_secs\<lparr>nsecs := nsec\<rparr>) Map.empty = Some (False, infos)"
    by (auto simp: propagation_fails_def split: option.splits)
  then show ?thesis by (simp add: split_step_def Let_def)
qed

lemma update_data_split_loop_fails:
  assumes "nsec \<le> nsecs mx" "propagation_fails M lg (shape_secs\<lparr>nsecs := nsec\<rparr>)"
  shows "\<exists>ts'. update_data_split_loop M lg mx nsec shape_secs time_step hist0 tried0 =
           Some (Return_false, shape_secs\<lparr>nsecs := nsec\<rparr>, ts',
                 hist0 @ [shape_secs\<lparr>nsecs := nsec\<rparr>], tried0 @ [shape_secs\<lparr>nsecs := nsec\<rparr>])"
proof -
  from split_step_fails[OF assms(2), of mx time_step] obtain ts' where
    "split_step M lg mx nsec shape_secs time_step =
       Some (Return_false, shape_secs\<lparr>nsecs := nsec\<rparr>, ts', [shape_secs\<lparr>nsecs := nsec\<rparr>])"
    by blast
  then show ?thesis using assms(1) by (subst update_data_split_loop.simps) simp
qed

text \<open>
  C6. The pass of the loop of \<^verbatim>\<open>update_data_split\<close> that runs the bounding-mode propagator
  on a candidate for which it fails ends the loop at once with \<^verbatim>\<open>return false\<close>: that
  candidate is the last one tried. And whenever the driver returns after the propagator
  failed for one of the split factors it was run with, the driver returns \<^verbatim>\<open>false\<close>, the
  failing candidate is the last one it tried and is the value of the split factors on
  return, and no candidate with a larger n was tried.
\<close>

theorem update_data_split_propagation_failure:
  "(nsec \<le> nsecs mx \<and> propagation_fails M lg (shape_secs\<lparr>nsecs := nsec\<rparr>) \<longrightarrow>
      (\<exists>ts'. update_data_split_loop M lg mx nsec shape_secs time_step hist0 tried0 =
         Some (Return_false, shape_secs\<lparr>nsecs := nsec\<rparr>, ts',
               hist0 @ [shape_secs\<lparr>nsecs := nsec\<rparr>], tried0 @ [shape_secs\<lparr>nsecs := nsec\<rparr>])))
   \<and> (update_data_split M time_step lg = Some (status, ss, ts, hist, tried) \<and> c \<in> set tried
        \<and> propagation_fails M lg c
      \<longrightarrow> \<not> status \<and> ss = c \<and> c = last tried \<and> (\<forall>c'\<in>set tried. nsecs c' \<le> nsecs c))"
proof (intro conjI impI)
  assume "nsec \<le> nsecs mx \<and> propagation_fails M lg (shape_secs\<lparr>nsecs := nsec\<rparr>)"
  then show "\<exists>ts'. update_data_split_loop M lg mx nsec shape_secs time_step hist0 tried0 =
         Some (Return_false, shape_secs\<lparr>nsecs := nsec\<rparr>, ts',
               hist0 @ [shape_secs\<lparr>nsecs := nsec\<rparr>], tried0 @ [shape_secs\<lparr>nsecs := nsec\<rparr>])"
    using update_data_split_loop_fails by blast
next
  assume a: "update_data_split M time_step lg = Some (status, ss, ts, hist, tried) \<and> c \<in> set tried
        \<and> propagation_fails M lg c"
  then have run: "update_data_split M time_step lg = Some (status, ss, ts, hist, tried)"
    and c: "c \<in> set tried" and f: "propagation_fails M lg c" by simp_all
  have b: "\<not> status \<and> ss = c \<and> c = last tried"
    using update_data_split_trace(4)[OF run] c f by simp
  have ne: "tried \<noteq> []" using c by auto
  note inc = increasing_candidates[OF update_data_split_trace(1)[OF run]]
  have "nsecs c = int (length tried)" using b inc(4)[OF ne] by simp
  then have "\<forall>c'\<in>set tried. nsecs c' \<le> nsecs c" using inc(3) by simp
  then show "\<not> status" "ss = c" "c = last tried" "\<forall>c'\<in>set tried. nsecs c' \<le> nsecs c"
    using b by simp_all
qed

lemmas driver_defs = update_data_split_def update_data_split_loop.simps split_step_def
  get_group_max_secs_def seed_max_nsecs_def get_output_values_def get_input_values_def
  maxIntN64_def ceiling_func_def align_up_def stripe_mine_max_slice_def max_seed_loop.simps
  get_split_max_secs_def update_lmem_req_def lmem_add.simps update_tensor_infos_def

lemma chain_example_run:
  "\<exists>ts. update_data_split chain_ir empty_step chain_group =
     Some (False, \<lparr>nsecs = 2, hsecs = 2\<rparr>, ts,
       [\<lparr>nsecs = 1, hsecs = 1\<rparr>, \<lparr>nsecs = 1, hsecs = 1\<rparr>, \<lparr>nsecs = 2, hsecs = 1\<rparr>,
        \<lparr>nsecs = 2, hsecs = 2\<rparr>, \<lparr>nsecs = 2, hsecs = 2\<rparr>],
       [\<lparr>nsecs = 1, hsecs = 1\<rparr>, \<lparr>nsecs = 2, hsecs = 2\<rparr>])"
  by (simp add: driver_defs propagation_defs worklist_loop.simps chain_ir_def chain_group_def
      ir0_def empty_step_def)

lemma chain_example_fails: "propagation_fails chain_ir chain_group \<lparr>nsecs = 2, hsecs = 2\<rparr>"
  by (simp add: propagation_fails_def driver_defs propagation_defs worklist_loop.simps
      chain_ir_def chain_group_def ir0_def)

theorem update_data_split_propagation_failure_witness:
  "propagation_fails chain_ir chain_group \<lparr>nsecs = 2, hsecs = 2\<rparr>
   \<and> (\<exists>ts'. update_data_split_loop chain_ir chain_group \<lparr>nsecs = 2, hsecs = 8\<rparr> 2
               \<lparr>nsecs = 2, hsecs = 2\<rparr> empty_step [] [] =
         Some (Return_false, \<lparr>nsecs = 2, hsecs = 2\<rparr>, ts',
               [\<lparr>nsecs = 2, hsecs = 2\<rparr>], [\<lparr>nsecs = 2, hsecs = 2\<rparr>]))
   \<and> (\<exists>ts hist. update_data_split chain_ir empty_step chain_group =
         Some (False, \<lparr>nsecs = 2, hsecs = 2\<rparr>, ts, hist,
               [\<lparr>nsecs = 1, hsecs = 1\<rparr>, \<lparr>nsecs = 2, hsecs = 2\<rparr>]))"
proof -
  from chain_example_run obtain ts where
    r: "update_data_split chain_ir empty_step chain_group =
     Some (False, \<lparr>nsecs = 2, hsecs = 2\<rparr>, ts,
       [\<lparr>nsecs = 1, hsecs = 1\<rparr>, \<lparr>nsecs = 1, hsecs = 1\<rparr>, \<lparr>nsecs = 2, hsecs = 1\<rparr>,
        \<lparr>nsecs = 2, hsecs = 2\<rparr>, \<lparr>nsecs = 2, hsecs = 2\<rparr>],
       [\<lparr>nsecs = 1, hsecs = 1\<rparr>, \<lparr>nsecs = 2, hsecs = 2\<rparr>])"
    by blast
  have m: "\<lparr>nsecs = 2, hsecs = 2\<rparr> \<in> set [\<lparr>nsecs = 1, hsecs = 1\<rparr>, \<lparr>nsecs = 2, hsecs = 2\<rparr>]"
    by simp
  have k: "(2::int) \<le> nsecs \<lparr>nsecs = 2, hsecs = 8\<rparr>"
    "\<lparr>nsecs = 2, hsecs = 2\<rparr>\<lparr>nsecs := 2\<rparr> = \<lparr>nsecs = 2, hsecs = 2::int\<rparr>" by simp_all
  note t = update_data_split_propagation_failure
    [of 2 "\<lparr>nsecs = 2, hsecs = 8\<rparr>" chain_ir chain_group "\<lparr>nsecs = 2, hsecs = 2\<rparr>" empty_step "[]" "[]"
        False "\<lparr>nsecs = 2, hsecs = 2\<rparr>" ts
        "[\<lparr>nsecs = 1, hsecs = 1\<rparr>, \<lparr>nsecs = 1, hsecs = 1\<rparr>, \<lparr>nsecs = 2, hsecs = 1\<rparr>,
        \<lparr>nsecs = 2, hsecs = 2\<rparr>, \<lparr>nsecs = 2, hsecs = 2\<rparr>]"
        "[\<lparr>nsecs = 1, hsecs = 1\<rparr>, \<lparr>nsecs = 2, hsecs = 2\<rparr>]" "\<lparr>nsecs = 2, hsecs = 2\<rparr>"]
  have "\<exists>ts'. update_data_split_loop chain_ir chain_group \<lparr>nsecs = 2, hsecs = 8\<rparr> 2
               \<lparr>nsecs = 2, hsecs = 2\<rparr> empty_step [] [] =
         Some (Return_false, \<lparr>nsecs = 2, hsecs = 2\<rparr>, ts',
               [\<lparr>nsecs = 2, hsecs = 2\<rparr>], [\<lparr>nsecs = 2, hsecs = 2\<rparr>])"
    using t chain_example_fails k by simp
  then show ?thesis using r chain_example_fails by blast
qed







subsection \<open>Consistency of the propagated records\<close>

lemma derives_mono:
  assumes "derives M lg ss infos c out v"
    and "\<And>w ti. infos w = Some ti \<Longrightarrow> infos' w = Some ti"
  shows "derives M lg ss infos' c out v"
proof -
  obtain t_out t_v where a: "infos out = Some t_out" "infos v = Some t_v"
    using assms(1) by (auto simp: derives_def split: option.splits)
  then have "infos' out = Some t_out" "infos' v = Some t_v" using assms(2) by simp_all
  then show ?thesis using assms(1) a by (simp add: derives_def)
qed

lemma expanded_mono:
  assumes "expanded M lg ss st r"
    and "op_set st \<subseteq># op_set st'"
    and "\<And>w ti. tensor_infos st w = Some ti \<Longrightarrow> tensor_infos st' w = Some ti"
  shows "expanded M lg ss st' r"
proof -
  obtain c where c: "getDefiningOp M r = Some c" "c \<in># op_set st"
    and d: "\<forall>v\<in>set (getOperands M c). \<not> is_weight_or_none M v \<longrightarrow> derives M lg ss (tensor_infos st) c r v"
    using assms(1) by (auto simp: expanded_def split: option.splits)
  have "c \<in># op_set st'" using c(2) assms(2) by (meson mset_subset_eqD)
  moreover have "\<forall>v\<in>set (getOperands M c). \<not> is_weight_or_none M v \<longrightarrow> derives M lg ss (tensor_infos st') c r v"
  proof (intro ballI impI)
    fix v assume "v \<in> set (getOperands M c)" "\<not> is_weight_or_none M v"
    then have "derives M lg ss (tensor_infos st) c r v" using d by simp
    then show "derives M lg ss (tensor_infos st') c r v" by (rule derives_mono) (rule assms(3))
  qed
  ultimately show ?thesis using c(1) by (simp add: expanded_def)
qed

text \<open>What one pass of the operand loop leaves for its operand.\<close>

lemma operand_step_result:
  assumes "operand_step M lg ss c out_si outs v st = Some st'" "\<not> is_weight_or_none M v"
  shows "\<exists>ti si. tensor_infos st' v = Some ti
           \<and> get_backward_slice_info M out_si c v ss (type' lg) = Some si
           \<and> si_n si = si_n (slice_info ti) \<and> si_h si = si_h (slice_info ti)"
    and "strip_back_judge M v lg (op_set st) outs \<Longrightarrow> v \<in> set (tensor_branchs st')"
proof -
  obtain si where si: "get_backward_slice_info M out_si c v ss (type' lg) = Some si"
    using assms by (auto simp: operand_step_def split: option.splits)
  show "\<exists>ti si. tensor_infos st' v = Some ti
           \<and> get_backward_slice_info M out_si c v ss (type' lg) = Some si
           \<and> si_n si = si_n (slice_info ti) \<and> si_h si = si_h (slice_info ti)"
  proof (cases "tensor_infos st v")
    case None
    then have "tensor_infos st' v = Some (tensor_info_of si)"
      using assms si by (auto simp: operand_step_def)
    then show ?thesis using si by (simp add: tensor_info_of_def)
  next
    case (Some ti)
    then have "is_same_slice_info si (slice_info ti)" "tensor_infos st' v = Some ti"
      using assms si by (auto simp: operand_step_def split: if_splits)
    then show ?thesis using si by (simp add: is_same_slice_info_eq)
  qed
  show "v \<in> set (tensor_branchs st')" if "strip_back_judge M v lg (op_set st) outs"
    using assms si that
    by (cases "tensor_infos st v") (auto simp: operand_step_def push_if_judged_def split: if_splits)
qed

lemma operands_loop_result:
  assumes "operands_loop M lg ss c out_si outs vs st = (True, st')"
  shows "\<forall>v\<in>set vs. \<not> is_weight_or_none M v \<longrightarrow>
           (\<exists>ti si. tensor_infos st' v = Some ti
              \<and> get_backward_slice_info M out_si c v ss (type' lg) = Some si
              \<and> si_n si = si_n (slice_info ti) \<and> si_h si = si_h (slice_info ti))"
    and "\<forall>v\<in>set vs. \<not> is_weight_or_none M v \<and> strip_back_judge M v lg (op_set st) outs
           \<longrightarrow> v \<in> set (tensor_branchs st')"
    and "dom (tensor_infos st') \<subseteq> dom (tensor_infos st) \<union> {v \<in> set vs. \<not> is_weight_or_none M v}"
  using assms
proof (induction vs arbitrary: st)
  case Nil
  { case 1 show ?case by simp }
  { case 2 show ?case by simp }
  { case 3 then show ?case by simp }
next
  case (Cons v vs)
  { case 1
    obtain st1 where s: "operand_step M lg ss c out_si outs v st = Some st1"
      and r: "operands_loop M lg ss c out_si outs vs st1 = (True, st')"
      using 1 by (auto split: option.splits)
    have "\<exists>ti si. tensor_infos st' v = Some ti
              \<and> get_backward_slice_info M out_si c v ss (type' lg) = Some si
              \<and> si_n si = si_n (slice_info ti) \<and> si_h si = si_h (slice_info ti)"
      if "\<not> is_weight_or_none M v"
      using operand_step_result(1)[OF s that] operands_loop_keeps[OF r] by blast
    then show ?case using Cons.IH(1)[OF r] by simp }
  { case 2
    obtain st1 where s: "operand_step M lg ss c out_si outs v st = Some st1"
      and r: "operands_loop M lg ss c out_si outs vs st1 = (True, st')"
      using 2 by (auto split: option.splits)
    have o: "op_set st1 = op_set st" using operand_step_keeps(1)[OF s] .
    have "v \<in> set (tensor_branchs st')"
      if "\<not> is_weight_or_none M v" "strip_back_judge M v lg (op_set st) outs"
      using operand_step_result(2)[OF s that] operands_loop_keeps[OF r] by blast
    then show ?case using Cons.IH(2)[OF r] o by simp }
  { case 3
    obtain st1 where s: "operand_step M lg ss c out_si outs v st = Some st1"
      and r: "operands_loop M lg ss c out_si outs vs st1 = (True, st')"
      using 3 by (auto split: option.splits)
    have d1: "dom (tensor_infos st1) \<subseteq> dom (tensor_infos st) \<union> {w. w = v \<and> \<not> is_weight_or_none M v}"
      using s by (auto simp: operand_step_def split: if_splits option.splits)
    show ?case using Cons.IH(3)[OF r] d1 by auto }
qed


text \<open>A successful call of \<^verbatim>\<open>backward_update_slice\<close> keeps the invariant.\<close>

lemma backward_update_slice_inv:
  assumes inv: "propagation_inv M lg ss outs s"
    and br: "tensor_branchs s = out # rest"
    and run: "backward_update_slice M lg ss out outs (s\<lparr>tensor_branchs := rest\<rparr>) = Some (True, s')"
    and users: "\<forall>c\<in>set (group_ops lg). \<forall>r. c \<in> set (getUsers M r) \<longrightarrow> r \<in> set (getOperands M c)"
  shows "propagation_inv M lg ss outs s'"
proof (cases "out \<in> set (group_ins lg)")
  case True
  then have s': "s' = s\<lparr>tensor_branchs := rest\<rparr>"
    using run by (simp add: backward_update_slice_def)
  have e: "expanded M lg ss s' r = expanded M lg ss s r" for r
    by (cases "getDefiningOp M r") (simp_all add: s' expanded_def)
  show ?thesis
    unfolding propagation_inv_def
  proof (intro conjI allI impI)
    fix r
    assume "r \<in> dom (tensor_infos s') \<and> \<not> is_weight_or_none M r \<and> strip_back_judge M r lg (op_set s') outs"
    then have "r \<in> set (tensor_branchs s) \<or> r \<in> set (group_ins lg) \<or> expanded M lg ss s r"
      using inv by (simp add: propagation_inv_def s')
    then show "r \<in> set (tensor_branchs s') \<or> r \<in> set (group_ins lg) \<or> expanded M lg ss s' r"
      using True br e by (auto simp: s')
  next
    fix c assume "c \<in># op_set s'"
    then show "\<exists>r. getDefiningOp M r = Some c \<and> expanded M lg ss s' r"
      using inv e by (simp add: propagation_inv_def s')
  qed
next
  case False
  then obtain c where c: "getDefiningOp M out = Some c"
    using run by (auto simp: backward_update_slice_def split: option.splits)
  let ?s0 = "s\<lparr>tensor_branchs := rest\<rparr>"
  let ?s1 = "?s0\<lparr>op_set := add_mset c (op_set ?s0)\<rparr>"
  let ?s2 = "(case tensor_infos ?s1 out of
                 None \<Rightarrow> ?s1\<lparr>tensor_infos := (tensor_infos ?s1)(out \<mapsto> default_tensor_info)\<rparr>
               | Some ti \<Rightarrow> ?s1)"
  let ?si = "(case tensor_infos ?s1 out of None \<Rightarrow> slice_info default_tensor_info | Some ti \<Rightarrow> slice_info ti)"
  have loop: "operands_loop M lg ss c ?si outs (getOperands M c) ?s2 = (True, s')"
    using run False c
    by (cases "tensor_infos s out") (simp_all add: backward_update_slice_def Let_def)
  have o2: "op_set ?s2 = add_mset c (op_set s)" by (simp split: option.splits)
  have b2: "tensor_branchs ?s2 = rest" by (simp split: option.splits)
  have k2: "\<And>w ti. tensor_infos s w = Some ti \<Longrightarrow> tensor_infos ?s2 w = Some ti"
    by (auto split: option.splits)
  have d2: "dom (tensor_infos ?s2) \<subseteq> insert out (dom (tensor_infos s))"
    by (auto split: option.splits)
  obtain t_out where t_out: "tensor_infos ?s2 out = Some t_out" "slice_info t_out = ?si"
    by (cases "tensor_infos s out") simp_all
  note keep = operands_loop_keeps[OF loop]
  note res = operands_loop_result[OF loop]
  have o': "op_set s' = add_mset c (op_set s)" using keep o2 by simp
  have sub: "op_set s \<subseteq># op_set s'" using o' by simp
  have k': "\<And>w ti. tensor_infos s w = Some ti \<Longrightarrow> tensor_infos s' w = Some ti"
    using keep k2 by blast
  have b': "set rest \<subseteq> set (tensor_branchs s')" using keep b2 by simp
  have t_out': "tensor_infos s' out = Some t_out" using keep t_out(1) by blast
  have exp_out: "expanded M lg ss s' out"
  proof -
    have "derives M lg ss (tensor_infos s') c out v"
      if v: "v \<in> set (getOperands M c)" "\<not> is_weight_or_none M v" for v
    proof -
      from res(1) v obtain ti si where
        "tensor_infos s' v = Some ti" "get_backward_slice_info M ?si c v ss (type' lg) = Some si"
        "si_n si = si_n (slice_info ti)" "si_h si = si_h (slice_info ti)"
        by blast
      then show ?thesis using t_out' t_out(2) by (simp add: derives_def)
    qed
    then show ?thesis using c o' by (simp add: expanded_def)
  qed
  show ?thesis
    unfolding propagation_inv_def
  proof (intro conjI allI impI)
    fix r
    assume a: "r \<in> dom (tensor_infos s') \<and> \<not> is_weight_or_none M r \<and> strip_back_judge M r lg (op_set s') outs"
    show "r \<in> set (tensor_branchs s') \<or> r \<in> set (group_ins lg) \<or> expanded M lg ss s' r"
    proof (cases "r = out")
      case True
      then show ?thesis using exp_out by simp
    next
      case ne: False
      show ?thesis
      proof (cases "r \<in> set (getOperands M c)")
        case True
        have "strip_back_judge M r lg (op_set ?s2) outs" using a o' o2 by simp
        then have "r \<in> set (tensor_branchs s')" using res(2) True a by blast
        then show ?thesis by simp
      next
        case nop: False
        have "r \<in> dom (tensor_infos ?s2)" using res(3) a nop by auto
        then have rd: "r \<in> dom (tensor_infos s)" using d2 ne by auto
        have "strip_back_judge M r lg (op_set s) outs"
        proof -
          have "u \<in># op_set s" if u: "u \<in> set (getUsers M r)" "u \<in> set (group_ops lg)" for u
          proof -
            have "u \<in># add_mset c (op_set s)" using a u o' by (simp add: strip_back_judge_iff)
            moreover have "u \<noteq> c" using users u nop by blast
            ultimately show ?thesis by simp
          qed
          then show ?thesis using a by (simp add: strip_back_judge_iff)
        qed
        then have "r \<in> set (tensor_branchs s) \<or> r \<in> set (group_ins lg) \<or> expanded M lg ss s r"
          using inv rd a by (simp add: propagation_inv_def)
        then show ?thesis using br ne b' expanded_mono[OF _ sub k'] by auto
      qed
    qed
  next
    fix c' assume "c' \<in># op_set s'"
    then have "c' = c \<or> c' \<in># op_set s" using o' by auto
    then show "\<exists>r. getDefiningOp M r = Some c' \<and> expanded M lg ss s' r"
    proof
      assume "c' = c"
      then show ?thesis using c exp_out by blast
    next
      assume "c' \<in># op_set s"
      then obtain r where "getDefiningOp M r = Some c'" "expanded M lg ss s r"
        using inv by (auto simp: propagation_inv_def)
      then show ?thesis using expanded_mono[OF _ sub k'] by blast
    qed
  qed
qed

lemma strip_back_judge_set:
  "r \<in> X \<Longrightarrow> r \<in> Y \<Longrightarrow> strip_back_judge M r lg S X = strip_back_judge M r lg S Y"
  by (simp add: strip_back_judge_iff)

lemma idx_seed_loop_branchs:
  assumes "idx_seed_loop M lg ss outs (st, S) = (st', S')"
  shows "set (tensor_branchs st) \<subseteq> set (tensor_branchs st')
       \<and> (\<forall>r\<in>set outs. strip_back_judge M r lg (op_set st) (S \<union> set outs) \<longrightarrow> r \<in> set (tensor_branchs st'))
       \<and> dom (tensor_infos st') = dom (tensor_infos st) \<union> set outs"
  using assms
proof (induction outs arbitrary: st S)
  case Nil
  then show ?case by simp
next
  case (Cons out outs)
  let ?si = "get_out_slice_info ss (getN M out (type' lg)) (getH M out (type' lg))"
  let ?st1 = "st\<lparr>tensor_infos := (tensor_infos st)(out \<mapsto> tensor_info_of ?si)\<rparr>"
  let ?st2 = "push_if_judged M lg (insert out S) out ?st1"
  have run: "idx_seed_loop M lg ss outs (?st2, insert out S) = (st', S')"
    using Cons.prems by (simp add: Let_def)
  note ih = Cons.IH[OF run]
  have IH: "set (tensor_branchs ?st2) \<subseteq> set (tensor_branchs st')"
    "\<forall>r\<in>set outs. strip_back_judge M r lg (op_set ?st2) (insert out S \<union> set outs) \<longrightarrow> r \<in> set (tensor_branchs st')"
    "dom (tensor_infos st') = dom (tensor_infos ?st2) \<union> set outs"
    using ih by blast+
  have dm: "dom (tensor_infos ?st2) = insert out (dom (tensor_infos st))"
    by (auto simp: push_if_judged_def split: if_splits)
  have sb: "set (tensor_branchs st) \<subseteq> set (tensor_branchs ?st2)"
    "strip_back_judge M out lg (op_set ?st1) (insert out S) \<longrightarrow> out \<in> set (tensor_branchs ?st2)"
    by (auto simp: push_if_judged_def)
  have os: "op_set ?st2 = op_set st" by (simp add: push_if_judged_def)
  have j: "strip_back_judge M out lg (op_set st) (S \<union> set (out # outs))
           = strip_back_judge M out lg (op_set ?st1) (insert out S)"
    by (simp add: strip_back_judge_iff)
  have a: "set (tensor_branchs st) \<subseteq> set (tensor_branchs st')" using IH(1) sb(1) by blast
  have b: "strip_back_judge M out lg (op_set st) (S \<union> set (out # outs)) \<longrightarrow> out \<in> set (tensor_branchs st')"
    using IH(1) j sb(2) by blast
  have c: "\<forall>r\<in>set outs. strip_back_judge M r lg (op_set st) (S \<union> set (out # outs)) \<longrightarrow> r \<in> set (tensor_branchs st')"
    using IH(2) os by simp
  have d: "dom (tensor_infos st') = dom (tensor_infos st) \<union> set (out # outs)"
    using IH(3) dm by auto
  show ?case using a b c d by simp
qed

lemma max_seed_loop_result:
  assumes "max_seed_loop M lg ss outs (st, S, mx) = Some (st', S', mx')"
  shows "set (tensor_branchs st) \<subseteq> set (tensor_branchs st')
       \<and> (\<forall>r\<in>set outs. strip_back_judge M r lg (op_set st) (S \<union> set outs) \<longrightarrow> r \<in> set (tensor_branchs st'))
       \<and> dom (tensor_infos st') = dom (tensor_infos st) \<union> set outs
       \<and> S' = S \<union> set outs \<and> op_set st' = op_set st"
  using assms
proof (induction outs arbitrary: st S mx)
  case Nil
  then show ?case by simp
next
  case (Cons out outs)
  let ?n1 = "max mx (ceiling_func (getN M out (type' lg)) (nsecs ss))"
  let ?n2 = "if ALIGN_4N M then align_up ?n1 (c_div 32 (getBitWidth M out)) else ?n1"
  let ?si = "\<lparr>si_n = [(0, ?n2)], si_h = [(0, c_div (getH M out (type' lg) + hsecs ss - 1) (hsecs ss))]\<rparr>"
  let ?st1 = "st\<lparr>tensor_infos := (tensor_infos st)(out \<mapsto> tensor_info_of ?si)\<rparr>"
  let ?st2 = "push_if_judged M lg (insert out S) out ?st1"
  have run: "max_seed_loop M lg ss outs (?st2, insert out S, ?n2) = Some (st', S', mx')"
    using Cons.prems by (simp add: Let_def split: if_splits)
  note ih = Cons.IH[OF run]
  have IH: "set (tensor_branchs ?st2) \<subseteq> set (tensor_branchs st')"
    "\<forall>r\<in>set outs. strip_back_judge M r lg (op_set ?st2) (insert out S \<union> set outs) \<longrightarrow> r \<in> set (tensor_branchs st')"
    "dom (tensor_infos st') = dom (tensor_infos ?st2) \<union> set outs"
    "S' = insert out S \<union> set outs" "op_set st' = op_set ?st2"
    using ih by blast+
  have dm: "dom (tensor_infos ?st2) = insert out (dom (tensor_infos st))"
    by (auto simp: push_if_judged_def split: if_splits)
  have sb: "set (tensor_branchs st) \<subseteq> set (tensor_branchs ?st2)"
    "strip_back_judge M out lg (op_set ?st1) (insert out S) \<longrightarrow> out \<in> set (tensor_branchs ?st2)"
    by (auto simp: push_if_judged_def)
  have os: "op_set ?st2 = op_set st" by (simp add: push_if_judged_def)
  have j: "strip_back_judge M out lg (op_set st) (S \<union> set (out # outs))
           = strip_back_judge M out lg (op_set ?st1) (insert out S)"
    by (simp add: strip_back_judge_iff)
  have a: "set (tensor_branchs st) \<subseteq> set (tensor_branchs st')" using IH(1) sb(1) by blast
  have b: "strip_back_judge M out lg (op_set st) (S \<union> set (out # outs)) \<longrightarrow> out \<in> set (tensor_branchs st')"
    using IH(1) j sb(2) by blast
  have c: "\<forall>r\<in>set outs. strip_back_judge M r lg (op_set st) (S \<union> set (out # outs)) \<longrightarrow> r \<in> set (tensor_branchs st')"
    using IH(2) os by simp
  have d: "dom (tensor_infos st') = dom (tensor_infos st) \<union> set (out # outs)"
    using IH(3) dm by auto
  have e: "S' = S \<union> set (out # outs)" "op_set st' = op_set st" using IH(4,5) os by auto
  show ?case using a b c d e by simp
qed

lemma seeded_inv:
  assumes "op_set st = {#}" "dom (tensor_infos st) = S"
    and "\<forall>r\<in>S. strip_back_judge M r lg {#} S \<longrightarrow> r \<in> set (tensor_branchs st)"
  shows "propagation_inv M lg ss S st"
  using assms by (auto simp: propagation_inv_def)

lemma weight_or_none_result:
  "getDefiningOp M r = Some c \<Longrightarrow> getKind M c \<notin> {WeightOp, NoneOp} \<Longrightarrow> \<not> is_weight_or_none M r"
  by (simp add: is_weight_or_none_def)

lemma expanded_visited:
  "expanded M lg ss st r \<Longrightarrow> getDefiningOp M r = Some c \<Longrightarrow> c \<in># op_set st"
  by (simp add: expanded_def)

lemma expanded_derives:
  "expanded M lg ss st r \<Longrightarrow> getDefiningOp M r = Some c \<Longrightarrow> v \<in> set (getOperands M c) \<Longrightarrow>
     \<not> is_weight_or_none M v \<Longrightarrow> derives M lg ss (tensor_infos st) c r v"
  by (simp add: expanded_def)

lemma derives_dom: "derives M lg ss infos c out v \<Longrightarrow> out \<in> dom infos \<and> v \<in> dom infos"
  by (auto simp: derives_def split: option.splits)

text \<open>
  When the worklist is empty, every operation of a well-formed group has been visited: an
  operation of highest rank among those not visited would have a result that the liveness
  test accepts, and the invariant says that this result has been expanded.
\<close>

lemma all_group_ops_visited:
  assumes inv: "propagation_inv M lg ss (set (group_outs lg)) st"
    and fin: "tensor_branchs st = []"
    and wf: "group_wf M lg"
    and outs: "set (group_outs lg) \<subseteq> dom (tensor_infos st)"
  shows "\<forall>c\<in>set (group_ops lg). c \<in># op_set st"
proof (rule ccontr)
  assume "\<not> (\<forall>c\<in>set (group_ops lg). c \<in># op_set st)"
  define A where "A = {c \<in> set (group_ops lg). c \<notin># op_set st}"
  have A: "finite A" "A \<noteq> {}" using \<open>\<not> (\<forall>c\<in>set (group_ops lg). c \<in># op_set st)\<close> by (auto simp: A_def)
  from wf obtain rank :: "Operation \<Rightarrow> nat" where
    rank: "\<forall>u\<in>set (group_ops lg). \<forall>r\<in>set (getOperands M u). \<forall>c\<in>set (group_ops lg).
             getDefiningOp M r = Some c \<longrightarrow> rank c < rank u"
    by (auto simp: group_wf_def)
  have kinds: "\<forall>c\<in>set (group_ops lg). getKind M c \<notin> {WeightOp, NoneOp}"
    and users: "\<forall>c\<in>set (group_ops lg). \<forall>r. c \<in> set (getUsers M r) \<longrightarrow> r \<in> set (getOperands M c)"
    and live: "\<forall>c\<in>set (group_ops lg). \<exists>r. getDefiningOp M r = Some c \<and> r \<notin> set (group_ins lg)
            \<and> (r \<in> set (group_outs lg) \<or> (\<exists>u\<in>set (getUsers M r). u \<in> set (group_ops lg)))"
    and gouts: "\<forall>r c. getDefiningOp M r = Some c \<and> c \<in> set (group_ops lg)
            \<and> (\<exists>u\<in>set (getUsers M r). u \<notin> set (group_ops lg)) \<longrightarrow> r \<in> set (group_outs lg)"
    using wf by (simp_all add: group_wf_def)
  define m where "m = Max (rank ` A)"
  have "m \<in> rank ` A" unfolding m_def using A by (intro Max_in) auto
  then obtain c where c: "c \<in> A" "rank c = m" by auto
  have mx: "rank u \<le> rank c" if "u \<in> A" for u
    using that A(1) c(2) by (simp add: m_def)
  have cg: "c \<in> set (group_ops lg)" and cn: "c \<notin># op_set st" using c(1) by (auto simp: A_def)
  from live cg obtain r where r: "getDefiningOp M r = Some c" "r \<notin> set (group_ins lg)"
    "r \<in> set (group_outs lg) \<or> (\<exists>u\<in>set (getUsers M r). u \<in> set (group_ops lg))"
    by blast
  have rw: "\<not> is_weight_or_none M r" using weight_or_none_result[OF r(1)] kinds cg by blast
  have vis: "u \<in># op_set st" if u: "u \<in> set (getUsers M r)" "u \<in> set (group_ops lg)" for u
  proof (rule ccontr)
    assume "u \<notin># op_set st"
    then have "u \<in> A" using u by (simp add: A_def)
    then have "rank u \<le> rank c" by (rule mx)
    moreover have "r \<in> set (getOperands M u)" using users u by blast
    then have "rank c < rank u" using rank u(2) cg r(1) by blast
    ultimately show False by simp
  qed
  have rd: "r \<in> dom (tensor_infos st)"
  proof (cases "r \<in> set (group_outs lg)")
    case True
    then show ?thesis using outs by blast
  next
    case False
    then obtain u where u: "u \<in> set (getUsers M r)" "u \<in> set (group_ops lg)" using r(3) by blast
    then have "u \<in># op_set st" by (rule vis)
    then obtain r' where r': "getDefiningOp M r' = Some u" "expanded M lg ss st r'"
      using inv by (auto simp: propagation_inv_def)
    have "r \<in> set (getOperands M u)" using users u by blast
    from expanded_derives[OF r'(2) r'(1) this rw] show ?thesis using derives_dom by blast
  qed
  have "strip_back_judge M r lg (op_set st) (set (group_outs lg))"
    using vis gouts r(1) cg by (auto simp: strip_back_judge_iff)
  then have "expanded M lg ss st r"
    using inv rd rw fin r(2) by (auto simp: propagation_inv_def)
  then have "c \<in># op_set st" using r(1) by (rule expanded_visited)
  then show False using cn by simp
qed

lemma propagated_consistent:
  assumes inv: "propagation_inv M lg ss (set (group_outs lg)) st"
    and fin: "tensor_branchs st = []"
    and wf: "group_wf M lg"
    and outs: "set (group_outs lg) \<subseteq> dom (tensor_infos st)"
  shows "consumers_consistent M lg ss (tensor_infos st)"
  unfolding consumers_consistent_def
proof (intro allI impI)
  fix v c
  assume a: "v \<in> dom (tensor_infos st) \<and> c \<in> set (group_ops lg) \<and> v \<in> set (getOperands M c)
             \<and> \<not> is_weight_or_none M v"
  note all = all_group_ops_visited[OF inv fin wf outs]
  have kinds: "\<forall>c\<in>set (group_ops lg). getKind M c \<notin> {WeightOp, NoneOp}"
    and users: "\<forall>c\<in>set (group_ops lg). \<forall>r. c \<in> set (getUsers M r) \<longrightarrow> r \<in> set (getOperands M c)"
    and live: "\<forall>c\<in>set (group_ops lg). \<exists>r. getDefiningOp M r = Some c \<and> r \<notin> set (group_ins lg)
            \<and> (r \<in> set (group_outs lg) \<or> (\<exists>u\<in>set (getUsers M r). u \<in> set (group_ops lg)))"
    and gouts: "\<forall>r c. getDefiningOp M r = Some c \<and> c \<in> set (group_ops lg)
            \<and> (\<exists>u\<in>set (getUsers M r). u \<notin> set (group_ops lg)) \<longrightarrow> r \<in> set (group_outs lg)"
    using wf by (simp_all add: group_wf_def)
  have exp: "expanded M lg ss st out"
    if o: "getDefiningOp M out = Some c" "out \<notin> set (group_ins lg)" "out \<in> dom (tensor_infos st)" for out
  proof -
    have "\<not> is_weight_or_none M out" using weight_or_none_result[OF o(1)] kinds a by blast
    moreover have "strip_back_judge M out lg (op_set st) (set (group_outs lg))"
      using all gouts o(1) a by (auto simp: strip_back_judge_iff)
    ultimately show ?thesis using inv o(2,3) fin by (auto simp: propagation_inv_def)
  qed
  have ex: "\<exists>out. getDefiningOp M out = Some c \<and> out \<notin> set (group_ins lg) \<and> out \<in> dom (tensor_infos st)"
  proof -
    from live a obtain r where r: "getDefiningOp M r = Some c" "r \<notin> set (group_ins lg)"
      "r \<in> set (group_outs lg) \<or> (\<exists>u\<in>set (getUsers M r). u \<in> set (group_ops lg))"
      by blast
    have rw: "\<not> is_weight_or_none M r" using weight_or_none_result[OF r(1)] kinds a by blast
    have "r \<in> dom (tensor_infos st)"
    proof (cases "r \<in> set (group_outs lg)")
      case True
      then show ?thesis using outs by blast
    next
      case False
      then obtain u where u: "u \<in> set (getUsers M r)" "u \<in> set (group_ops lg)" using r(3) by blast
      then have "u \<in># op_set st" using all by blast
      then obtain r' where r': "getDefiningOp M r' = Some u" "expanded M lg ss st r'"
        using inv by (auto simp: propagation_inv_def)
      have "r \<in> set (getOperands M u)" using users u by blast
      from expanded_derives[OF r'(2) r'(1) this rw] show ?thesis using derives_dom by blast
    qed
    then show ?thesis using r by blast
  qed
  have "derives M lg ss (tensor_infos st) c out v"
    if "getDefiningOp M out = Some c \<and> out \<notin> set (group_ins lg) \<and> out \<in> dom (tensor_infos st)" for out
    using expanded_derives[OF exp] that a by blast
  then show "(\<exists>out. getDefiningOp M out = Some c \<and> out \<notin> set (group_ins lg) \<and> out \<in> dom (tensor_infos st))
     \<and> (\<forall>out. getDefiningOp M out = Some c \<and> out \<notin> set (group_ins lg) \<and> out \<in> dom (tensor_infos st)
            \<longrightarrow> derives M lg ss (tensor_infos st) c out v)"
    using ex by blast
qed

lemma worklist_loop_consistent:
  assumes run: "worklist_loop M lg ss (set (group_outs lg)) st = Some (True, st')"
    and init: "propagation_inv M lg ss (set (group_outs lg)) st"
    and wf: "group_wf M lg"
    and outs: "set (group_outs lg) \<subseteq> dom (tensor_infos st)"
  shows "consumers_consistent M lg ss (tensor_infos st')"
proof -
  have users: "\<forall>c\<in>set (group_ops lg). \<forall>r. c \<in> set (getUsers M r) \<longrightarrow> r \<in> set (getOperands M c)"
    using wf by (simp add: group_wf_def)
  have "propagation_inv M lg ss (set (group_outs lg)) st' \<and> tensor_branchs st' = []"
  proof (rule worklist_loop_success[OF run, where I = "propagation_inv M lg ss (set (group_outs lg))"])
    show "propagation_inv M lg ss (set (group_outs lg)) st" by (rule init)
  next
    fix s out rest s'
    assume "propagation_inv M lg ss (set (group_outs lg)) s" "tensor_branchs s = out # rest"
      "backward_update_slice M lg ss out (set (group_outs lg)) (s\<lparr>tensor_branchs := rest\<rparr>) = Some (True, s')"
    then show "propagation_inv M lg ss (set (group_outs lg)) s'"
      using users by (rule backward_update_slice_inv)
  qed
  moreover have "set (group_outs lg) \<subseteq> dom (tensor_infos st')"
    using outs worklist_loop_keeps[OF run] by (auto simp: dom_def)
  ultimately show ?thesis using wf by (intro propagated_consistent) simp_all
qed

text \<open>A conflicting record makes the operand loop, the call and the worklist loop fail.\<close>

lemma operands_loop_conflict:
  assumes "v \<in> set vs" "\<not> is_weight_or_none M v" "tensor_infos st v = Some t_v"
    and "get_backward_slice_info M out_si c v ss (type' lg) = Some si"
    and "si_n si \<noteq> si_n (slice_info t_v) \<or> si_h si \<noteq> si_h (slice_info t_v)"
  shows "fst (operands_loop M lg ss c out_si outs vs st) = False"
  using assms(1,3)
proof (induction vs arbitrary: st)
  case Nil
  then show ?case by simp
next
  case (Cons w ws)
  show ?case
  proof (cases "operand_step M lg ss c out_si outs w st")
    case None
    then show ?thesis by simp
  next
    case (Some st1)
    have "w \<noteq> v"
    proof
      assume "w = v"
      then have "operand_step M lg ss c out_si outs w st = None"
        using assms(2,4,5) Cons.prems(2) by (auto simp: operand_step_def is_same_slice_info_eq)
      then show False using Some by simp
    qed
    then have "v \<in> set ws" using Cons.prems(1) by simp
    moreover have "tensor_infos st1 v = Some t_v"
      using operand_step_keeps(2)[OF Some Cons.prems(2)] .
    ultimately have "fst (operands_loop M lg ss c out_si outs ws st1) = False" by (rule Cons.IH)
    then show ?thesis using Some by simp
  qed
qed

lemma backward_update_slice_conflict:
  assumes "slice_conflict M lg ss (tensor_infos st) out v"
  shows "\<exists>st'. backward_update_slice M lg ss out outs st = Some (False, st')"
proof -
  from assms obtain c t_out t_v si where
    a: "out \<notin> set (group_ins lg)" "getDefiningOp M out = Some c" "v \<in> set (getOperands M c)"
       "\<not> is_weight_or_none M v" "tensor_infos st out = Some t_out" "tensor_infos st v = Some t_v"
       "get_backward_slice_info M (slice_info t_out) c v ss (type' lg) = Some si"
       "si_n si \<noteq> si_n (slice_info t_v) \<or> si_h si \<noteq> si_h (slice_info t_v)"
    by (auto simp: slice_conflict_def split: option.splits)
  let ?st1 = "st\<lparr>op_set := add_mset c (op_set st)\<rparr>"
  have "tensor_infos ?st1 v = Some t_v" using a(6) by simp
  from operands_loop_conflict[OF a(3,4) this a(7,8)]
  have "fst (operands_loop M lg ss c (slice_info t_out) outs (getOperands M c) ?st1) = False" .
  then obtain st' where
    "operands_loop M lg ss c (slice_info t_out) outs (getOperands M c) ?st1 = (False, st')"
    by (cases "operands_loop M lg ss c (slice_info t_out) outs (getOperands M c) ?st1") simp
  then show ?thesis using a(1,2,5) by (simp add: backward_update_slice_def)
qed

lemma worklist_loop_conflict:
  assumes "slice_conflict M lg ss (tensor_infos st) out v"
  shows "\<exists>st'. worklist_loop M lg ss outs (st\<lparr>tensor_branchs := out # rest\<rparr>) = Some (False, st')"
proof -
  have "slice_conflict M lg ss (tensor_infos (st\<lparr>tensor_branchs := rest\<rparr>)) out v"
    using assms by simp
  from backward_update_slice_conflict[OF this] obtain st' where
    "backward_update_slice M lg ss out outs (st\<lparr>tensor_branchs := rest\<rparr>) = Some (False, st')"
    by blast
  then show ?thesis by (subst worklist_loop.simps) simp
qed

lemma stripe_mine_consistent:
  assumes wf: "group_wf M lg" and n: "length (group_ops lg) \<noteq> 1"
    and run: "stripe_mine_idx_slice M lg ss infos0 = Some (True, infos)
              \<or> stripe_mine_max_slice M lg ss infos0 = Some (True, infos)"
  shows "consumers_consistent M lg ss infos"
  using run
proof
  assume r: "stripe_mine_idx_slice M lg ss infos0 = Some (True, infos)"
  obtain st S where seed: "idx_seed_loop M lg ss (group_outs lg) (empty_state, {}) = (st, S)"
    by (cases "idx_seed_loop M lg ss (group_outs lg) (empty_state, {})")
  obtain st' where w: "worklist_loop M lg ss S st = Some (True, st')" and i: "infos = tensor_infos st'"
    using r n seed by (auto simp: stripe_mine_idx_slice_def split: option.splits)
  have S: "S = set (group_outs lg)" "op_set st = {#}"
    using idx_seed_loop_result[OF seed] by (simp_all add: empty_state_def)
  have b: "\<forall>r\<in>set (group_outs lg). strip_back_judge M r lg {#} (set (group_outs lg)) \<longrightarrow> r \<in> set (tensor_branchs st)"
    and d: "dom (tensor_infos st) = set (group_outs lg)"
    using idx_seed_loop_branchs[OF seed] by (simp_all add: empty_state_def)
  have "propagation_inv M lg ss (set (group_outs lg)) st"
    using S(2) d b by (rule seeded_inv)
  then show ?thesis using worklist_loop_consistent[of M lg ss st st'] w S(1) wf d i by simp
next
  assume r: "stripe_mine_max_slice M lg ss infos0 = Some (True, infos)"
  obtain st S mx where seed: "max_seed_loop M lg ss (group_outs lg) (empty_state, {}, 0) = Some (st, S, mx)"
    using r n by (auto simp: stripe_mine_max_slice_def split: option.splits)
  obtain st' where w: "worklist_loop M lg ss S st = Some (True, st')" and i: "infos = tensor_infos st'"
    using r n seed by (auto simp: stripe_mine_max_slice_def split: option.splits)
  note f = max_seed_loop_result[OF seed]
  have S: "S = set (group_outs lg)" "op_set st = {#}" using f by (simp_all add: empty_state_def)
  have b: "\<forall>r\<in>set (group_outs lg). strip_back_judge M r lg {#} (set (group_outs lg)) \<longrightarrow> r \<in> set (tensor_branchs st)"
    and d: "dom (tensor_infos st) = set (group_outs lg)"
    using f by (simp_all add: empty_state_def)
  have "propagation_inv M lg ss (set (group_outs lg)) st"
    using S(2) d b by (rule seeded_inv)
  then show ?thesis using worklist_loop_consistent[of M lg ss st st'] w S(1) wf d i by simp
qed

text \<open>
  C1. When a tensor is expanded and an operand of its producer already carries a record
  that differs, on the batch or on the height pairs, from the slice info derived for it
  (the comparison \<^verbatim>\<open>is_same_slice_info\<close> makes), \<^verbatim>\<open>backward_update_slice\<close> returns
  \<^verbatim>\<open>false\<close> and so does the worklist loop that called it. And when propagation (in
  exact or in bounding mode) succeeds on a well-formed group of more than one operation,
  the record of every tensor of the resulting map is the one that each operation of the
  group consuming it derives from the records of its results.
\<close>

theorem backward_propagation_consistent:
  "(slice_conflict M lg ss (tensor_infos st) out v \<longrightarrow>
      (\<exists>st'. backward_update_slice M lg ss out outs st = Some (False, st'))
      \<and> (\<exists>st'. worklist_loop M lg ss outs (st\<lparr>tensor_branchs := out # rest\<rparr>) = Some (False, st')))
   \<and> (group_wf M lg \<and> length (group_ops lg) \<noteq> 1
        \<and> (stripe_mine_idx_slice M lg ss infos0 = Some (True, infos)
             \<or> stripe_mine_max_slice M lg ss infos0 = Some (True, infos))
      \<longrightarrow> consumers_consistent M lg ss infos)"
  using backward_update_slice_conflict[of M lg ss st out v outs]
    worklist_loop_conflict[of M lg ss st out v outs rest]
    stripe_mine_consistent[of M lg ss infos0 infos]
  by blast

lemma diamond_wf: "group_wf diamond_ir diamond_group"
proof -
  have "\<forall>u\<in>set (group_ops diamond_group). \<forall>r\<in>set (getOperands diamond_ir u).
          \<forall>c\<in>set (group_ops diamond_group). getDefiningOp diamond_ir r = Some c \<longrightarrow> id c < id u"
    by (simp add: diamond_ir_def diamond_group_def ir0_def)
  then have "\<exists>rank :: Operation \<Rightarrow> nat. \<forall>u\<in>set (group_ops diamond_group).
      \<forall>r\<in>set (getOperands diamond_ir u). \<forall>c\<in>set (group_ops diamond_group).
        getDefiningOp diamond_ir r = Some c \<longrightarrow> rank c < rank u"
    by (rule_tac x = id in exI)
  moreover have "\<forall>c\<in>set (group_ops diamond_group). getKind diamond_ir c \<notin> {WeightOp, NoneOp}"
    by (simp add: diamond_ir_def diamond_group_def ir0_def)
  moreover have "\<forall>c\<in>set (group_ops diamond_group). \<forall>r. c \<in> set (getUsers diamond_ir r)
      \<longrightarrow> r \<in> set (getOperands diamond_ir c)"
    by (simp add: diamond_ir_def diamond_group_def ir0_def)
  moreover have "\<forall>c\<in>set (group_ops diamond_group). \<exists>r. getDefiningOp diamond_ir r = Some c
      \<and> r \<notin> set (group_ins diamond_group)
      \<and> (r \<in> set (group_outs diamond_group)
           \<or> (\<exists>u\<in>set (getUsers diamond_ir r). u \<in> set (group_ops diamond_group)))"
  proof -
    have "\<forall>c\<in>set (group_ops diamond_group). getDefiningOp diamond_ir (Suc c) = Some c
      \<and> Suc c \<notin> set (group_ins diamond_group)
      \<and> (Suc c \<in> set (group_outs diamond_group)
           \<or> (\<exists>u\<in>set (getUsers diamond_ir (Suc c)). u \<in> set (group_ops diamond_group)))"
      by (simp add: diamond_ir_def diamond_group_def ir0_def)
    then show ?thesis by blast
  qed
  moreover have "\<forall>r c. getDefiningOp diamond_ir r = Some c \<and> c \<in> set (group_ops diamond_group)
            \<and> (\<exists>u\<in>set (getUsers diamond_ir r). u \<notin> set (group_ops diamond_group))
          \<longrightarrow> r \<in> set (group_outs diamond_group)"
    by (simp add: diamond_ir_def diamond_group_def ir0_def)
  ultimately show ?thesis unfolding group_wf_def by blast
qed

lemma diamond_example_run:
  "stripe_mine_idx_slice diamond_ir diamond_group \<lparr>nsecs = 1, hsecs = 1\<rparr> Map.empty =
     Some (True,
       [4 \<mapsto> tensor_info_of \<lparr>si_n = [(0, 1)], si_h = [(0, 4)]\<rparr>,
        2 \<mapsto> tensor_info_of \<lparr>si_n = [(0, 1)], si_h = [(0, 4)]\<rparr>,
        3 \<mapsto> tensor_info_of \<lparr>si_n = [(0, 1)], si_h = [(0, 4)]\<rparr>,
        1 \<mapsto> tensor_info_of \<lparr>si_n = [(0, 1)], si_h = [(0, 4)]\<rparr>,
        0 \<mapsto> tensor_info_of \<lparr>si_n = [(0, 1)], si_h = [(0, 4)]\<rparr>])"
  by (simp add: propagation_defs worklist_loop.simps diamond_ir_def diamond_group_def ir0_def)

lemma diamond_example_conflict:
  "slice_conflict diamond_ir diamond_group \<lparr>nsecs = 1, hsecs = 2\<rparr> diamond_infos 3 1"
  by (simp add: slice_conflict_def diamond_infos_def diamond_ir_def diamond_group_def ir0_def
      is_weight_or_none_def get_backward_slice_info_def backward_n_def backward_h_def
      is_broadcast_binary_def tensor_info_of_def)

lemma diamond_example_fails:
  "map_option fst (stripe_mine_idx_slice diamond_ir diamond_group \<lparr>nsecs = 1, hsecs = 2\<rparr> Map.empty)
     = Some False"
  by (simp add: propagation_defs worklist_loop.simps diamond_ir_def diamond_group_def ir0_def)

theorem backward_propagation_consistent_witness:
  "slice_conflict diamond_ir diamond_group \<lparr>nsecs = 1, hsecs = 2\<rparr> diamond_infos 3 1
   \<and> (\<exists>st'. backward_update_slice diamond_ir diamond_group \<lparr>nsecs = 1, hsecs = 2\<rparr> 3 {4}
               \<lparr>tensor_branchs = [], tensor_infos = diamond_infos, op_set = {#}\<rparr> = Some (False, st'))
   \<and> map_option fst (stripe_mine_idx_slice diamond_ir diamond_group \<lparr>nsecs = 1, hsecs = 2\<rparr> Map.empty)
       = Some False
   \<and> group_wf diamond_ir diamond_group
   \<and> consumers_consistent diamond_ir diamond_group \<lparr>nsecs = 1, hsecs = 1\<rparr>
       [4 \<mapsto> tensor_info_of \<lparr>si_n = [(0, 1)], si_h = [(0, 4)]\<rparr>,
        2 \<mapsto> tensor_info_of \<lparr>si_n = [(0, 1)], si_h = [(0, 4)]\<rparr>,
        3 \<mapsto> tensor_info_of \<lparr>si_n = [(0, 1)], si_h = [(0, 4)]\<rparr>,
        1 \<mapsto> tensor_info_of \<lparr>si_n = [(0, 1)], si_h = [(0, 4)]\<rparr>,
        0 \<mapsto> tensor_info_of \<lparr>si_n = [(0, 1)], si_h = [(0, 4)]\<rparr>]"
proof -
  have n: "length (group_ops diamond_group) \<noteq> 1" by (simp add: diamond_group_def)
  have c: "slice_conflict diamond_ir diamond_group \<lparr>nsecs = 1, hsecs = 2\<rparr>
             (tensor_infos \<lparr>tensor_branchs = [], tensor_infos = diamond_infos, op_set = {#}\<rparr>) 3 1"
    using diamond_example_conflict by simp
  show ?thesis
    using backward_propagation_consistent [of diamond_ir diamond_group "\<lparr>nsecs = 1, hsecs = 2\<rparr>"
        "\<lparr>tensor_branchs = [], tensor_infos = diamond_infos, op_set = {#}\<rparr>" 3 1 "{4}" "[]"
        Map.empty "[4 \<mapsto> tensor_info_of \<lparr>si_n = [(0, 1)], si_h = [(0, 4)]\<rparr>,
        2 \<mapsto> tensor_info_of \<lparr>si_n = [(0, 1)], si_h = [(0, 4)]\<rparr>,
        3 \<mapsto> tensor_info_of \<lparr>si_n = [(0, 1)], si_h = [(0, 4)]\<rparr>,
        1 \<mapsto> tensor_info_of \<lparr>si_n = [(0, 1)], si_h = [(0, 4)]\<rparr>,
        0 \<mapsto> tensor_info_of \<lparr>si_n = [(0, 1)], si_h = [(0, 4)]\<rparr>]"]
      backward_propagation_consistent [of diamond_ir diamond_group "\<lparr>nsecs = 1, hsecs = 1\<rparr>"
        "\<lparr>tensor_branchs = [], tensor_infos = diamond_infos, op_set = {#}\<rparr>" 3 1 "{4}" "[]"
        Map.empty "[4 \<mapsto> tensor_info_of \<lparr>si_n = [(0, 1)], si_h = [(0, 4)]\<rparr>,
        2 \<mapsto> tensor_info_of \<lparr>si_n = [(0, 1)], si_h = [(0, 4)]\<rparr>,
        3 \<mapsto> tensor_info_of \<lparr>si_n = [(0, 1)], si_h = [(0, 4)]\<rparr>,
        1 \<mapsto> tensor_info_of \<lparr>si_n = [(0, 1)], si_h = [(0, 4)]\<rparr>,
        0 \<mapsto> tensor_info_of \<lparr>si_n = [(0, 1)], si_h = [(0, 4)]\<rparr>]"]
      c n diamond_wf diamond_example_run diamond_example_fails diamond_example_conflict
    by blast
qed

subsection \<open>The records of exact-mode propagation\<close>



















end
